theory Spec2Isabelle
  imports Main "HOL-Library.Word" "HOL-Library.Signed_Division"
    "HOL-Library.List_Lexorder" "HOL-Library.Char_ord"
begin

section \<open>Bytes, slices and errors\<close>

type_synonym byte = "8 word"
type_synonym bytes = "byte list"
type_synonym int64 = "64 word"

text \<open>
  Every error return and every runtime panic of the Go code is a value of this type.
\<close>

datatype error =
    KeySizeError
  | DecodeError
  | EncodeError
  | NilSha1Error
  | MissingSha1Error
  | LookupFailed
  | OutOfSpace
  | IOError string
  | SliceBoundsPanic
  | IndexPanic

abbreviation sha1Size :: nat where "sha1Size \<equiv> 20"
abbreviation md5Size :: nat where "md5Size \<equiv> 16"
abbreviation crc32Size :: nat where "crc32Size \<equiv> 4"

abbreviation keySizeCrc :: nat where "keySizeCrc \<equiv> 4"
abbreviation keySizeMd5 :: nat where "keySizeMd5 \<equiv> 16"
abbreviation keySizeSha1 :: nat where "keySizeSha1 \<equiv> 20"

text \<open>
  The slice expression \<open>s[i:j]\<close>. Go panics unless \<open>i \<le> j \<le> cap(s)\<close>; the model takes
  the capacity of a slice to be its length, so a read past the end is a panic.
\<close>

definition slice :: "'a list \<Rightarrow> nat \<Rightarrow> nat \<Rightarrow> 'a list option" where
  "slice s i j = (if i \<le> j \<and> j \<le> length s then Some (take (j - i) (drop i s)) else None)"

text \<open>A \<open>[]byte\<close> that may be \<open>nil\<close> is a \<open>bytes option\<close>; \<open>len(nil) = 0\<close>.\<close>

definition bytesOf :: "bytes option \<Rightarrow> bytes" where
  "bytesOf b = (case b of None \<Rightarrow> [] | Some v \<Rightarrow> v)"

text \<open>The builtin \<open>copy(dst, src)\<close>: overwrites the first \<open>min(len dst, len src)\<close> bytes.\<close>

definition copyInto :: "'a list \<Rightarrow> 'a list \<Rightarrow> 'a list" where
  "copyInto dst src = take (length dst) src @ drop (length src) dst"

section \<open>Union-append of 20-byte digests (db/kv.go)\<close>

text \<open>The inner loop of \<open>appendUniqueSha1\<close>: is \<open>srcBytes\<close> one of the 20-byte blocks of \<open>dst\<close>?\<close>

function containsSha1 :: "bytes \<Rightarrow> bytes \<Rightarrow> nat \<Rightarrow> bool option" where
  "containsSha1 srcBytes dst j =
     (if j < length dst then
        (case slice dst j (j + sha1Size) of
           None \<Rightarrow> None
         | Some dstBytes \<Rightarrow>
             if srcBytes = dstBytes then Some True
             else containsSha1 srcBytes dst (j + sha1Size))
      else Some False)"
  by pat_completeness auto
termination
  by (relation "measure (\<lambda>(s, dst, j). length dst - j)") auto

function appendUniqueLoop :: "bytes \<Rightarrow> bytes \<Rightarrow> nat \<Rightarrow> bytes option" where
  "appendUniqueLoop dst src i =
     (if i < length src then
        (case slice src i (i + sha1Size) of
           None \<Rightarrow> None
         | Some srcBytes \<Rightarrow>
             (case containsSha1 srcBytes dst 0 of
                None \<Rightarrow> None
              | Some found \<Rightarrow>
                  appendUniqueLoop (if found then dst else dst @ srcBytes) src (i + sha1Size)))
      else Some dst)"
  by pat_completeness auto
termination
  by (relation "measure (\<lambda>(dst, src, i). length src - i)") auto

definition appendUniqueSha1 :: "bytes \<Rightarrow> bytes \<Rightarrow> bytes option" where
  "appendUniqueSha1 dst src = appendUniqueLoop dst src 0"

text \<open>
  Specification vocabulary: the 20-byte blocks of a value, a value made of whole blocks,
  and the blocks of \<open>cs\<close> that are new with respect to \<open>seen\<close>, each once, in order of
  first occurrence.
\<close>

fun chunks :: "'a list \<Rightarrow> 'a list list" where
  "chunks xs = (if xs = [] then [] else take sha1Size xs # chunks (drop sha1Size xs))"

definition aligned :: "'a list \<Rightarrow> bool" where
  "aligned xs = (length xs mod sha1Size = 0)"

fun fresh :: "'a list \<Rightarrow> 'a list \<Rightarrow> 'a list" where
  "fresh seen [] = []"
| "fresh seen (c # cs) = (if c \<in> set seen then fresh seen cs else c # fresh (seen @ [c]) cs)"

section \<open>Data model (package types)\<close>

record Rom =
  rom_Name :: string
  rom_Size :: int64
  rom_Crc :: "bytes option"
  rom_Md5 :: "bytes option"
  rom_Sha1 :: "bytes option"
  rom_Path :: string

record Game =
  game_Name :: string
  game_Description :: string
  game_Roms :: "Rom list"

record Dat =
  dat_Name :: string
  dat_Description :: string
  dat_Path :: string
  dat_Generation :: int64
  dat_Artificial :: bool
  dat_Games :: "Game list"

text \<open>
  The library functions the index calls: gob encoding and decoding of a Dat (either may
  fail) and the SHA1 digest of a byte string. They are parameters of the model.
\<close>

record Codec =
  gobEncode :: "Dat \<Rightarrow> bytes option"
  gobDecode :: "bytes \<Rightarrow> Dat option"
  sha1Sum :: "bytes \<Rightarrow> bytes"

section \<open>The key/value store behind the index\<close>

text \<open>
  Modelled from the spec: the concrete \<open>KVStore\<close> and \<open>KVBatch\<close> backends are installed
  through \<open>StoreOpener\<close> and are not part of db/kv.go. Following section 4.4, a store is an
  ordered map with a fixed key size that is validated on every call; a batch collects
  operations and \<open>WriteBatch\<close> applies them in order, all or nothing; \<open>Append\<close> reads the
  current value, scans it in 20-byte steps and appends only digests not already present.
\<close>

record KVStore =
  kv_keySize :: nat
  kv_data :: "bytes \<rightharpoonup> bytes"

datatype batchOp = OpSet bytes bytes | OpAppend bytes bytes | OpDelete bytes

record KVBatch =
  kb_keySize :: nat
  kb_ops :: "batchOp list"

definition kvGet :: "KVStore \<Rightarrow> bytes \<Rightarrow> error + bytes option" where
  "kvGet db key = (if length key \<noteq> kv_keySize db then Inl KeySizeError else Inr (kv_data db key))"

definition kvExists :: "KVStore \<Rightarrow> bytes \<Rightarrow> error + bool" where
  "kvExists db key =
     (if length key \<noteq> kv_keySize db then Inl KeySizeError else Inr (kv_data db key \<noteq> None))"

definition kvStartBatch :: "KVStore \<Rightarrow> KVBatch" where
  "kvStartBatch db = \<lparr>kb_keySize = kv_keySize db, kb_ops = []\<rparr>"

definition batchSet :: "KVBatch \<Rightarrow> bytes \<Rightarrow> bytes \<Rightarrow> error + KVBatch" where
  "batchSet b key v =
     (if length key \<noteq> kb_keySize b then Inl KeySizeError
      else Inr (b\<lparr>kb_ops := kb_ops b @ [OpSet key v]\<rparr>))"

definition batchAppend :: "KVBatch \<Rightarrow> bytes \<Rightarrow> bytes \<Rightarrow> error + KVBatch" where
  "batchAppend b key v =
     (if length key \<noteq> kb_keySize b then Inl KeySizeError
      else Inr (b\<lparr>kb_ops := kb_ops b @ [OpAppend key v]\<rparr>))"

definition batchClear :: "KVBatch \<Rightarrow> KVBatch" where
  "batchClear b = b\<lparr>kb_ops := []\<rparr>"

fun applyOp :: "(bytes \<rightharpoonup> bytes) \<Rightarrow> batchOp \<Rightarrow> error + (bytes \<rightharpoonup> bytes)" where
  "applyOp m (OpSet k v) = Inr (m(k \<mapsto> v))"
| "applyOp m (OpAppend k v) =
     (case appendUniqueSha1 (bytesOf (m k)) v of
        None \<Rightarrow> Inl SliceBoundsPanic
      | Some r \<Rightarrow> Inr (m(k \<mapsto> r)))"
| "applyOp m (OpDelete k) = Inr (m(k := None))"

fun applyOps :: "(bytes \<rightharpoonup> bytes) \<Rightarrow> batchOp list \<Rightarrow> error + (bytes \<rightharpoonup> bytes)" where
  "applyOps m [] = Inr m"
| "applyOps m (x # xs) = (case applyOp m x of Inl e \<Rightarrow> Inl e | Inr m' \<Rightarrow> applyOps m' xs)"

definition kvWriteBatch :: "KVStore \<Rightarrow> KVBatch \<Rightarrow> error + KVStore" where
  "kvWriteBatch db b =
     (case applyOps (kv_data db) (kb_ops b) of
        Inl e \<Rightarrow> Inl e
      | Inr m \<Rightarrow> Inr (db\<lparr>kv_data := m\<rparr>))"

section \<open>The multi-key index (db/kv.go)\<close>

record kvStore =
  generation :: int64
  datsDB :: KVStore
  crcDB :: KVStore
  md5DB :: KVStore
  sha1DB :: KVStore
  crcsha1DB :: KVStore
  md5sha1DB :: KVStore

record kvBatch =
  datsBatch :: KVBatch
  crcBatch :: KVBatch
  md5Batch :: KVBatch
  sha1Batch :: KVBatch
  crcsha1Batch :: KVBatch
  md5sha1Batch :: KVBatch
  kvb_size :: int64

definition GetDat :: "Codec \<Rightarrow> kvStore \<Rightarrow> bytes \<Rightarrow> error + Dat option" where
  "GetDat cd kvdb sha1Bytes =
     (case kvGet (datsDB kvdb) sha1Bytes of
        Inl e \<Rightarrow> Inl e
      | Inr None \<Rightarrow> Inr None
      | Inr (Some dBytes) \<Rightarrow>
          (case gobDecode cd dBytes of
             None \<Rightarrow> Inl DecodeError
           | Some dat \<Rightarrow> Inr (Some dat)))"

text \<open>The loop of \<open>DatsForRom\<close> over the 20-byte blocks of the value found.\<close>

function datsLoop :: "Codec \<Rightarrow> kvStore \<Rightarrow> bytes \<Rightarrow> nat \<Rightarrow> Dat list \<Rightarrow> error + Dat list" where
  "datsLoop cd kvdb dBytes i dats =
     (if i < length dBytes then
        (case slice dBytes i (i + sha1Size) of
           None \<Rightarrow> Inl SliceBoundsPanic
         | Some sha1Bytes \<Rightarrow>
             (case GetDat cd kvdb sha1Bytes of
                Inl e \<Rightarrow> Inl e
              | Inr None \<Rightarrow> datsLoop cd kvdb dBytes (i + sha1Size) dats
              | Inr (Some dat) \<Rightarrow> datsLoop cd kvdb dBytes (i + sha1Size) (dats @ [dat])))
      else Inr dats)"
  by pat_completeness auto
termination
  by (relation "measure (\<lambda>(cd, kvdb, dBytes, i, dats). length dBytes - i)") auto

definition DatsForRom :: "Codec \<Rightarrow> kvStore \<Rightarrow> Rom \<Rightarrow> error + Dat list" where
  "DatsForRom cd kvdb rom =
     (case (case rom_Sha1 rom of
              None \<Rightarrow> Inr None
            | Some s \<Rightarrow> kvGet (sha1DB kvdb) s) of
        Inl e \<Rightarrow> Inl e
      | Inr d1 \<Rightarrow>
     (case (case rom_Md5 rom of
              None \<Rightarrow> Inr d1
            | Some m \<Rightarrow> if d1 = None then kvGet (md5DB kvdb) m else Inr d1) of
        Inl e \<Rightarrow> Inl e
      | Inr d2 \<Rightarrow>
     (case (case rom_Crc rom of
              None \<Rightarrow> Inr d2
            | Some c \<Rightarrow> if d2 = None then kvGet (crcDB kvdb) c else Inr d2) of
        Inl e \<Rightarrow> Inl e
      | Inr None \<Rightarrow> Inr []
      | Inr (Some dBytes) \<Rightarrow> datsLoop cd kvdb dBytes 0 [])))"


text \<open>Sequencing of steps that may return an error: the \<open>if err != nil { return err }\<close> idiom.\<close>

definition bindE :: "error + 'a \<Rightarrow> ('a \<Rightarrow> error + 'b) \<Rightarrow> error + 'b" where
  "bindE r f = (case r of Inl e \<Rightarrow> Inl e | Inr x \<Rightarrow> f x)"

text \<open>
  One \<open>Append\<close> on a sub-batch followed by \<open>kvb.size += int64(sha1.Size)\<close>, for each of the
  five union maps.
\<close>

definition appendSha1 :: "kvBatch \<Rightarrow> bytes \<Rightarrow> bytes \<Rightarrow> error + kvBatch" where
  "appendSha1 kvb key v =
     (case batchAppend (sha1Batch kvb) key v of
        Inl e \<Rightarrow> Inl e
      | Inr b \<Rightarrow> Inr (kvb\<lparr>sha1Batch := b, kvb_size := kvb_size kvb + 20\<rparr>))"

definition appendMd5 :: "kvBatch \<Rightarrow> bytes \<Rightarrow> bytes \<Rightarrow> error + kvBatch" where
  "appendMd5 kvb key v =
     (case batchAppend (md5Batch kvb) key v of
        Inl e \<Rightarrow> Inl e
      | Inr b \<Rightarrow> Inr (kvb\<lparr>md5Batch := b, kvb_size := kvb_size kvb + 20\<rparr>))"

definition appendCrc :: "kvBatch \<Rightarrow> bytes \<Rightarrow> bytes \<Rightarrow> error + kvBatch" where
  "appendCrc kvb key v =
     (case batchAppend (crcBatch kvb) key v of
        Inl e \<Rightarrow> Inl e
      | Inr b \<Rightarrow> Inr (kvb\<lparr>crcBatch := b, kvb_size := kvb_size kvb + 20\<rparr>))"

definition appendMd5Sha1 :: "kvBatch \<Rightarrow> bytes \<Rightarrow> bytes \<Rightarrow> error + kvBatch" where
  "appendMd5Sha1 kvb key v =
     (case batchAppend (md5sha1Batch kvb) key v of
        Inl e \<Rightarrow> Inl e
      | Inr b \<Rightarrow> Inr (kvb\<lparr>md5sha1Batch := b, kvb_size := kvb_size kvb + 20\<rparr>))"

definition appendCrcSha1 :: "kvBatch \<Rightarrow> bytes \<Rightarrow> bytes \<Rightarrow> error + kvBatch" where
  "appendCrcSha1 kvb key v =
     (case batchAppend (crcsha1Batch kvb) key v of
        Inl e \<Rightarrow> Inl e
      | Inr b \<Rightarrow> Inr (kvb\<lparr>crcsha1Batch := b, kvb_size := kvb_size kvb + 20\<rparr>))"

text \<open>The body of the loop of \<open>kvBatch.IndexDat\<close> over the roms of a game.\<close>

definition indexDatRom :: "kvBatch \<Rightarrow> bytes \<Rightarrow> Rom \<Rightarrow> error + kvBatch" where
  "indexDatRom kvb sha1Bytes r =
     bindE (case rom_Sha1 r of
              None \<Rightarrow> Inr kvb
            | Some s \<Rightarrow> appendSha1 kvb s sha1Bytes) (\<lambda>kvb1.
     bindE (case rom_Md5 r of
              None \<Rightarrow> Inr kvb1
            | Some m \<Rightarrow>
                bindE (appendMd5 kvb1 m sha1Bytes) (\<lambda>k.
                  case rom_Sha1 r of
                    None \<Rightarrow> Inr k
                  | Some s \<Rightarrow> appendMd5Sha1 k m s)) (\<lambda>kvb2.
     (case rom_Crc r of
        None \<Rightarrow> Inr kvb2
      | Some c \<Rightarrow>
          bindE (appendCrc kvb2 c sha1Bytes) (\<lambda>k.
            case rom_Sha1 r of
              None \<Rightarrow> Inr k
            | Some s \<Rightarrow> appendCrcSha1 k c s))))"

fun indexDatRoms :: "kvBatch \<Rightarrow> bytes \<Rightarrow> Rom list \<Rightarrow> error + kvBatch" where
  "indexDatRoms kvb sha1Bytes [] = Inr kvb"
| "indexDatRoms kvb sha1Bytes (r # rs) =
     (case indexDatRom kvb sha1Bytes r of
        Inl e \<Rightarrow> Inl e
      | Inr kvb' \<Rightarrow> indexDatRoms kvb' sha1Bytes rs)"

fun indexDatGames :: "kvBatch \<Rightarrow> bytes \<Rightarrow> Game list \<Rightarrow> error + kvBatch" where
  "indexDatGames kvb sha1Bytes [] = Inr kvb"
| "indexDatGames kvb sha1Bytes (g # gs) =
     (case indexDatRoms kvb sha1Bytes (game_Roms g) of
        Inl e \<Rightarrow> Inl e
      | Inr kvb' \<Rightarrow> indexDatGames kvb' sha1Bytes gs)"

text \<open>
  A \<open>Set\<close> whose error the caller drops (\<open>kvb.datsBatch.Set(...)\<close> and
  \<open>kvb.sha1Batch.Set(...)\<close> are called as statements): a rejected key leaves the batch as it was.
\<close>

definition batchSetIgnoringError :: "KVBatch \<Rightarrow> bytes \<Rightarrow> bytes \<Rightarrow> KVBatch" where
  "batchSetIgnoringError b key v = (case batchSet b key v of Inl e \<Rightarrow> b | Inr b' \<Rightarrow> b')"

text \<open>
  \<open>kvBatch.IndexDat\<close>. The batch is mutated through a pointer in Go; here an error return
  gives back no batch, as \<open>kvStore.IndexDat\<close> and \<open>kvStore.IndexRom\<close> drop theirs on error.
\<close>

definition kvBatch_IndexDat ::
  "Codec \<Rightarrow> kvStore \<Rightarrow> kvBatch \<Rightarrow> Dat \<Rightarrow> bytes option \<Rightarrow> error + kvBatch" where
  "kvBatch_IndexDat cd kvdb kvb dat0 sha1Bytes =
     (case sha1Bytes of
        None \<Rightarrow> Inl NilSha1Error
      | Some sb \<Rightarrow>
          (let dat = dat0\<lparr>dat_Generation := generation kvdb\<rparr> in
           case gobEncode cd dat of
             None \<Rightarrow> Inl EncodeError
           | Some buf \<Rightarrow>
               (case (if dat_Artificial dat then Inr False
                      else (case kvExists (datsDB kvdb) sb of
                              Inl e \<Rightarrow> Inl LookupFailed
                            | Inr existsSha1 \<Rightarrow> Inr existsSha1)) of
                  Inl e \<Rightarrow> Inl e
                | Inr exists \<Rightarrow>
                    (let kvb1 = kvb\<lparr>datsBatch := batchSetIgnoringError (datsBatch kvb) sb buf,
                                     kvb_size := kvb_size kvb + of_nat (sha1Size + length buf)\<rparr>
                     in if \<not> exists then indexDatGames kvb1 sb (dat_Games dat) else Inr kvb1))))"

text \<open>The union of the Dat digests reachable through the rom's MD5 and CRC (\<open>IndexRom\<close>).\<close>

definition unionInto :: "bytes \<Rightarrow> KVStore \<Rightarrow> bytes option \<Rightarrow> error + bytes" where
  "unionInto sha1s db key =
     (case key of
        None \<Rightarrow> Inr sha1s
      | Some k \<Rightarrow>
          (case kvGet db k of
             Inl e \<Rightarrow> Inl e
           | Inr ss \<Rightarrow>
               if length (bytesOf ss) > 0 then
                 (case appendUniqueSha1 sha1s (bytesOf ss) of
                    None \<Rightarrow> Inl SliceBoundsPanic
                  | Some r \<Rightarrow> Inr r)
               else Inr sha1s))"

definition artificialDat :: "kvStore \<Rightarrow> Rom \<Rightarrow> Dat" where
  "artificialDat kvdb rom =
     \<lparr>dat_Name = ''Artificial Dat for '' @ rom_Name rom,
      dat_Description = [],
      dat_Path = rom_Path rom,
      dat_Generation = generation kvdb,
      dat_Artificial = True,
      dat_Games = [\<lparr>game_Name = [], game_Description = [], game_Roms = [rom]\<rparr>]\<rparr>"

definition kvBatch_IndexRom :: "Codec \<Rightarrow> kvStore \<Rightarrow> kvBatch \<Rightarrow> Rom \<Rightarrow> error + kvBatch" where
  "kvBatch_IndexRom cd kvdb kvb rom =
     bindE (case rom_Sha1 rom of
              None \<Rightarrow> Inr kvb
            | Some s \<Rightarrow>
                bindE (case rom_Crc rom of
                         None \<Rightarrow> Inr kvb
                       | Some c \<Rightarrow> appendCrcSha1 kvb c s) (\<lambda>k.
                  case rom_Md5 rom of
                    None \<Rightarrow> Inr k
                  | Some m \<Rightarrow> appendMd5Sha1 k m s)) (\<lambda>kvb1.
     bindE (DatsForRom cd kvdb rom) (\<lambda>dats.
       if length dats > 0 then
         bindE (kvGet (sha1DB kvdb) (bytesOf (rom_Sha1 rom))) (\<lambda>ssd.
           if length (bytesOf ssd) = 0 then
             bindE (unionInto [] (md5DB kvdb) (rom_Md5 rom)) (\<lambda>sha1s1.
             bindE (unionInto sha1s1 (crcDB kvdb) (rom_Crc rom)) (\<lambda>sha1s.
               if length sha1s > 0 then
                 Inr (kvb1\<lparr>sha1Batch :=
                        batchSetIgnoringError (sha1Batch kvb1) (bytesOf (rom_Sha1 rom)) sha1s\<rparr>)
               else Inr kvb1))
           else Inr kvb1)
       else
         (let dat = artificialDat kvdb rom in
          case gobEncode cd dat of
            None \<Rightarrow> Inl EncodeError
          | Some buf \<Rightarrow> kvBatch_IndexDat cd kvdb kvb1 dat (Some (sha1Sum cd buf)))))"

definition StartBatch :: "kvStore \<Rightarrow> kvBatch" where
  "StartBatch kvdb =
     \<lparr>datsBatch = kvStartBatch (datsDB kvdb),
      crcBatch = kvStartBatch (crcDB kvdb),
      md5Batch = kvStartBatch (md5DB kvdb),
      sha1Batch = kvStartBatch (sha1DB kvdb),
      crcsha1Batch = kvStartBatch (crcsha1DB kvdb),
      md5sha1Batch = kvStartBatch (md5sha1DB kvdb),
      kvb_size = 0\<rparr>"

text \<open>
  \<open>kvBatch.Flush\<close>: nothing is written when the pending size is zero; otherwise the six
  sub-batches are written in order, and the first failure stops the flush with the earlier
  stores already written.
\<close>

definition Flush :: "kvStore \<Rightarrow> kvBatch \<Rightarrow> kvStore \<times> kvBatch \<times> error option" where
  "Flush kvdb kvb =
     (if kvb_size kvb = 0 then (kvdb, kvb, None)
      else
      case kvWriteBatch (datsDB kvdb) (datsBatch kvb) of
        Inl e \<Rightarrow> (kvdb, kvb, Some e)
      | Inr d1 \<Rightarrow>
      (let kvdb1 = kvdb\<lparr>datsDB := d1\<rparr>; kvb1 = kvb\<lparr>datsBatch := batchClear (datsBatch kvb)\<rparr> in
      case kvWriteBatch (crcDB kvdb1) (crcBatch kvb1) of
        Inl e \<Rightarrow> (kvdb1, kvb1, Some e)
      | Inr d2 \<Rightarrow>
      (let kvdb2 = kvdb1\<lparr>crcDB := d2\<rparr>; kvb2 = kvb1\<lparr>crcBatch := batchClear (crcBatch kvb1)\<rparr> in
      case kvWriteBatch (md5DB kvdb2) (md5Batch kvb2) of
        Inl e \<Rightarrow> (kvdb2, kvb2, Some e)
      | Inr d3 \<Rightarrow>
      (let kvdb3 = kvdb2\<lparr>md5DB := d3\<rparr>; kvb3 = kvb2\<lparr>md5Batch := batchClear (md5Batch kvb2)\<rparr> in
      case kvWriteBatch (sha1DB kvdb3) (sha1Batch kvb3) of
        Inl e \<Rightarrow> (kvdb3, kvb3, Some e)
      | Inr d4 \<Rightarrow>
      (let kvdb4 = kvdb3\<lparr>sha1DB := d4\<rparr>; kvb4 = kvb3\<lparr>sha1Batch := batchClear (sha1Batch kvb3)\<rparr> in
      case kvWriteBatch (crcsha1DB kvdb4) (crcsha1Batch kvb4) of
        Inl e \<Rightarrow> (kvdb4, kvb4, Some e)
      | Inr d5 \<Rightarrow>
      (let kvdb5 = kvdb4\<lparr>crcsha1DB := d5\<rparr>;
           kvb5 = kvb4\<lparr>crcsha1Batch := batchClear (crcsha1Batch kvb4)\<rparr> in
      case kvWriteBatch (md5sha1DB kvdb5) (md5sha1Batch kvb5) of
        Inl e \<Rightarrow> (kvdb5, kvb5, Some e)
      | Inr d6 \<Rightarrow>
          (kvdb5\<lparr>md5sha1DB := d6\<rparr>,
           kvb5\<lparr>md5sha1Batch := batchClear (md5sha1Batch kvb5), kvb_size := 0\<rparr>,
           None)))))))"

text \<open>\<open>kvBatch.Close\<close> flushes; the batch is not used afterwards.\<close>

definition Close :: "kvStore \<Rightarrow> kvBatch \<Rightarrow> kvStore \<times> error option" where
  "Close kvdb kvb = (case Flush kvdb kvb of (kvdb', kvb', err) \<Rightarrow> (kvdb', err))"

definition kvStore_IndexRom :: "Codec \<Rightarrow> kvStore \<Rightarrow> Rom \<Rightarrow> kvStore \<times> error option" where
  "kvStore_IndexRom cd kvdb rom =
     (case kvBatch_IndexRom cd kvdb (StartBatch kvdb) rom of
        Inl e \<Rightarrow> (kvdb, Some e)
      | Inr batch \<Rightarrow> Close kvdb batch)"

definition kvStore_IndexDat ::
  "Codec \<Rightarrow> kvStore \<Rightarrow> Dat \<Rightarrow> bytes option \<Rightarrow> kvStore \<times> error option" where
  "kvStore_IndexDat cd kvdb dat sha1Bytes =
     (case kvBatch_IndexDat cd kvdb (StartBatch kvdb) dat sha1Bytes of
        Inl e \<Rightarrow> (kvdb, Some e)
      | Inr batch \<Rightarrow> Close kvdb batch)"


section \<open>The depot (package archive)\<close>

record Depot =
  roots :: "string list"
  sizes :: "int64 list"
  maxSizes :: "int64 list"
  start :: nat

record Hashes =
  h_Crc :: bytes
  h_Md5 :: bytes
  h_Sha1 :: bytes

text \<open>
  Modelled from the spec: the filesystem helpers \<open>PathExists\<close>, \<open>HashesForGZFile\<close> and the
  path encoder \<open>pathFromSha1HexEncoding\<close> live in files of the package that are not part of
  the sources at hand. A path holds a compressed blob whose trailer carries the MD5 and CRC
  of the payload (sections 3 and 4.3), a file whose trailer cannot be read, or an entry that
  cannot even be examined; \<open>path_for(root, sha1_hex, suffix)\<close> is
  \<open>root/AB/CD/EF/GH/<full_hex><suffix>\<close> (section 4.2).
\<close>

datatype fsnode = Blob Hashes | Damaged | Inaccessible

type_synonym files = "string \<rightharpoonup> fsnode"

definition PathExists :: "files \<Rightarrow> string \<Rightarrow> error + bool" where
  "PathExists fs path =
     (case fs path of
        None \<Rightarrow> Inr False
      | Some Inaccessible \<Rightarrow> Inl (IOError path)
      | Some _ \<Rightarrow> Inr True)"

definition HashesForGZFile :: "files \<Rightarrow> string \<Rightarrow> error + Hashes" where
  "HashesForGZFile fs path =
     (case fs path of
        Some (Blob hh) \<Rightarrow> Inr hh
      | _ \<Rightarrow> Inl (IOError path))"

text \<open>\<open>os.Open\<close>: the open file is identified by its path.\<close>

definition osOpen :: "files \<Rightarrow> string \<Rightarrow> error + string option" where
  "osOpen fs path =
     (case fs path of
        None \<Rightarrow> Inl (IOError path)
      | Some Inaccessible \<Rightarrow> Inl (IOError path)
      | Some _ \<Rightarrow> Inr (Some path))"

definition gzipSuffix :: string where
  "gzipSuffix = ''.gz''"

definition pathFromSha1HexEncoding :: "string \<Rightarrow> string \<Rightarrow> string \<Rightarrow> string" where
  "pathFromSha1HexEncoding root sha1Hex suffix =
     root @ ''/'' @ take 2 sha1Hex @ ''/'' @ take 2 (drop 2 sha1Hex) @ ''/''
       @ take 2 (drop 4 sha1Hex) @ ''/'' @ take 2 (drop 6 sha1Hex) @ ''/'' @ sha1Hex @ suffix"

text \<open>\<open>hex.EncodeToString\<close> of the Go library: two lower-case hex digits per byte.\<close>

definition hexDigit :: "nat \<Rightarrow> char" where
  "hexDigit n = ''0123456789abcdef'' ! (n mod 16)"

definition EncodeToString :: "bytes \<Rightarrow> string" where
  "EncodeToString bs = concat (map (\<lambda>b. [hexDigit (unat b div 16), hexDigit (unat b mod 16)]) bs)"

text \<open>\<open>Depot.SHA1InDepot\<close>: the loop over the roots returns at the first error or the first hit.\<close>

fun sha1InRoots :: "files \<Rightarrow> string \<Rightarrow> string list \<Rightarrow> error + bool" where
  "sha1InRoots fs sha1Hex [] = Inr False"
| "sha1InRoots fs sha1Hex (root # rest) =
     (let rompath = pathFromSha1HexEncoding root sha1Hex gzipSuffix in
      case PathExists fs rompath of
        Inl e \<Rightarrow> Inl e
      | Inr exists \<Rightarrow> if exists then Inr True else sha1InRoots fs sha1Hex rest)"

definition SHA1InDepot :: "Depot \<Rightarrow> files \<Rightarrow> string \<Rightarrow> error + bool" where
  "SHA1InDepot depot fs sha1Hex = sha1InRoots fs sha1Hex (roots depot)"

text \<open>
  \<open>Depot.OpenRomGZ\<close>. A loop over the roots either returns from the function
  (\<open>Some\<close> of the returned pair) or runs to its end (\<open>None\<close>).
\<close>

fun openInRoots :: "files \<Rightarrow> string \<Rightarrow> string list \<Rightarrow> (error + string option) option" where
  "openInRoots fs sha1Hex [] = None"
| "openInRoots fs sha1Hex (root # rest) =
     (let rompath = pathFromSha1HexEncoding root sha1Hex gzipSuffix in
      case PathExists fs rompath of
        Inl e \<Rightarrow> Some (Inl e)
      | Inr exists \<Rightarrow> if exists then Some (osOpen fs rompath) else openInRoots fs sha1Hex rest)"

fun openMatchingInRoots ::
  "files \<Rightarrow> Rom \<Rightarrow> string \<Rightarrow> string list \<Rightarrow> (error + string option) option" where
  "openMatchingInRoots fs rom sha1Hex [] = None"
| "openMatchingInRoots fs rom sha1Hex (root # rest) =
     (let rompath = pathFromSha1HexEncoding root sha1Hex gzipSuffix in
      case PathExists fs rompath of
        Inl e \<Rightarrow> Some (Inl e)
      | Inr exists \<Rightarrow>
          if exists then
            (if rom_Crc rom \<noteq> None \<or> rom_Md5 rom \<noteq> None then
               (case HashesForGZFile fs rompath of
                  Inl e \<Rightarrow> Some (Inl e)
                | Inr hh \<Rightarrow>
                    if rom_Md5 rom \<noteq> None \<and> bytesOf (rom_Md5 rom) = h_Md5 hh
                      then Some (osOpen fs rompath)
                    else if rom_Crc rom \<noteq> None \<and> bytesOf (rom_Crc rom) = h_Crc hh
                      then Some (osOpen fs rompath)
                    else openMatchingInRoots fs rom sha1Hex rest)
             else Some (osOpen fs rompath))
          else openMatchingInRoots fs rom sha1Hex rest)"

function openCandidates ::
  "Depot \<Rightarrow> files \<Rightarrow> Rom \<Rightarrow> bytes \<Rightarrow> nat \<Rightarrow> error + string option" where
  "openCandidates depot fs rom sha1 i =
     (if i < length sha1 then
        (case slice sha1 i (i + sha1Size) of
           None \<Rightarrow> Inl SliceBoundsPanic
         | Some cand \<Rightarrow>
             (case openMatchingInRoots fs rom (EncodeToString cand) (roots depot) of
                Some r \<Rightarrow> r
              | None \<Rightarrow> openCandidates depot fs rom sha1 (i + sha1Size)))
      else Inr None)"
  by pat_completeness auto
termination
  by (relation "measure (\<lambda>(depot, fs, rom, sha1, i). length sha1 - i)") auto

definition OpenRomGZ :: "Depot \<Rightarrow> files \<Rightarrow> Rom \<Rightarrow> error + string option" where
  "OpenRomGZ depot fs rom =
     (case rom_Sha1 rom of
        None \<Rightarrow> Inl MissingSha1Error
      | Some sha1 \<Rightarrow>
          if length sha1 = sha1Size then
            (case openInRoots fs (EncodeToString sha1) (roots depot) of
               Some r \<Rightarrow> r
             | None \<Rightarrow> Inr None)
          else openCandidates depot fs rom sha1 0)"

text \<open>
  \<open>Depot.reserveRoot\<close>. The sizes are \<open>int64\<close>: the sum wraps around and the comparisons are
  signed. The mutex is not modelled; the function runs under it from start to end.
\<close>

function reserveLoop :: "Depot \<Rightarrow> int64 \<Rightarrow> nat \<Rightarrow> Depot \<times> (error + nat)" where
  "reserveLoop depot sz i =
     (if i < length (roots depot) then
        (if i < length (sizes depot) \<and> i < length (maxSizes depot) then
           (if sint (sizes depot ! i + sz) < sint (maxSizes depot ! i) then
              (depot\<lparr>sizes := (sizes depot)[i := sizes depot ! i + sz]\<rparr>, Inr i)
            else if sint (sizes depot ! i) \<ge> sint (maxSizes depot ! i) then
              reserveLoop (depot\<lparr>start := i\<rparr>) sz (i + 1)
            else reserveLoop depot sz (i + 1))
         else (depot, Inl IndexPanic))
      else (depot, Inl OutOfSpace))"
  by pat_completeness auto
termination
  by (relation "measure (\<lambda>(depot, sz, i). length (roots depot) - i)") auto

definition reserveRoot :: "Depot \<Rightarrow> int64 \<Rightarrow> Depot \<times> (error + nat)" where
  "reserveRoot depot sz = reserveLoop depot sz (start depot)"

definition adjustSize :: "Depot \<Rightarrow> nat \<Rightarrow> int64 \<Rightarrow> error + Depot" where
  "adjustSize depot index delta =
     (if index < length (sizes depot)
      then Inr (depot\<lparr>sizes := (sizes depot)[index := sizes depot ! index + delta]\<rparr>)
      else Inl IndexPanic)"


section \<open>The archive worker (package archive)\<close>

text \<open>
  What a \<open>readerOpener\<close> yields: the bytes of the source, and whether reading it or closing
  it fails. The hash computer and the size of the deflated payload are library functions
  and parameters of the model.
\<close>

record Reader =
  r_data :: bytes
  r_readFails :: bool
  r_closeFails :: bool

record Tools =
  hashesOf :: "bytes \<Rightarrow> Hashes"
  deflatedSize :: "bytes \<Rightarrow> int64"

record ArchiveState =
  a_index :: kvStore
  a_depot :: Depot
  a_files :: files
  md5crcBuffer :: bytes

text \<open>
  Modelled from the spec: the compressed-blob writer \<open>archive(outpath, r, md5crcBuffer)\<close> is
  not part of the sources at hand. Following section 4.3 it creates the file with the 20-byte
  trailer (MD5, then CRC) and returns the on-disk size; on a failure no file is left. The
  SHA1 of a blob is carried by its file name and is not recorded in the node.
\<close>

definition writeBlob ::
  "Tools \<Rightarrow> files \<Rightarrow> string \<Rightarrow> Reader \<Rightarrow> bytes \<Rightarrow> error + (files \<times> int64)" where
  "writeBlob tls fs outpath r trailer =
     (if fs outpath = Some Inaccessible \<or> r_readFails r then Inl (IOError outpath)
      else Inr (fs(outpath \<mapsto> Blob \<lparr>h_Crc = drop md5Size trailer, h_Md5 = take md5Size trailer,
                                      h_Sha1 = []\<rparr>),
                deflatedSize tls (r_data r)))"

text \<open>Lines 571 to 580 of \<open>archiveWorker.archive\<close>: the rom built from the hashes.\<close>

definition hashedRom :: "Hashes \<Rightarrow> string \<Rightarrow> string \<Rightarrow> int64 \<Rightarrow> Rom" where
  "hashedRom hh name path sz =
     \<lparr>rom_Name = name,
      rom_Size = sz,
      rom_Crc = Some (copyInto (replicate crc32Size 0) (h_Crc hh)),
      rom_Md5 = Some (copyInto (replicate md5Size 0) (h_Md5 hh)),
      rom_Sha1 = Some (copyInto (replicate sha1Size 0) (h_Sha1 hh)),
      rom_Path = path\<rparr>"

text \<open>Division of \<open>int64\<close> values truncates towards zero (the divisor here is the constant 5).\<close>

definition int64Div :: "int64 \<Rightarrow> int64 \<Rightarrow> int64" where
  "int64Div a b = word_of_int (sint a sdiv sint b)"

text \<open>Steps 3 to 8 of \<open>archiveWorker.archive\<close>, from \<open>IndexRom\<close> to the size adjustment.\<close>

definition archiveStore ::
  "Codec \<Rightarrow> Tools \<Rightarrow> ArchiveState \<Rightarrow> error + Reader \<Rightarrow> Hashes \<Rightarrow> Rom \<Rightarrow> int64
     \<Rightarrow> ArchiveState \<times> (error + int64)" where
  "archiveStore cd tls s ro hh rom sz =
     (case kvStore_IndexRom cd (a_index s) rom of
        (idx, Some e) \<Rightarrow> (s\<lparr>a_index := idx\<rparr>, Inl e)
      | (idx, None) \<Rightarrow>
     (let s2 = s\<lparr>a_index := idx\<rparr>; sha1Hex = EncodeToString (h_Sha1 hh) in
      case SHA1InDepot (a_depot s2) (a_files s2) sha1Hex of
        Inl e \<Rightarrow> (s2, Inl e)
      | Inr exists \<Rightarrow>
          if exists then (s2, Inr 0)
          else
     (let estimatedCompressedSize = int64Div sz 5 in
      case reserveRoot (a_depot s2) estimatedCompressedSize of
        (depot, Inl e) \<Rightarrow> (s2\<lparr>a_depot := depot\<rparr>, Inl e)
      | (depot, Inr root) \<Rightarrow>
     (let s3 = s2\<lparr>a_depot := depot\<rparr>;
          outpath = pathFromSha1HexEncoding (roots depot ! root) sha1Hex gzipSuffix in
      case ro of
        Inl e \<Rightarrow> (s3, Inl e)
      | Inr r \<Rightarrow>
          (case writeBlob tls (a_files s3) outpath r (md5crcBuffer s3) of
             Inl e \<Rightarrow> (s3, Inl e)
           | Inr (fs, compressedSize) \<Rightarrow>
               (case adjustSize depot root (compressedSize - estimatedCompressedSize) of
                  Inl e \<Rightarrow> (s3\<lparr>a_files := fs\<rparr>, Inl e)
                | Inr depot' \<Rightarrow>
                    (s3\<lparr>a_files := fs, a_depot := depot'\<rparr>, Inr compressedSize)))))))"

text \<open>
  \<open>archiveWorker.archive\<close>. The opener is called twice in Go; the model takes both calls
  to yield the same reader.
\<close>

definition archive ::
  "Codec \<Rightarrow> Tools \<Rightarrow> bool \<Rightarrow> ArchiveState \<Rightarrow> error + Reader \<Rightarrow> string \<Rightarrow> string \<Rightarrow> int64
     \<Rightarrow> ArchiveState \<times> (error + int64)" where
  "archive cd tls onlyneeded s ro name path sz =
     (case ro of
        Inl e \<Rightarrow> (s, Inl e)
      | Inr r \<Rightarrow>
          if r_readFails r then (s, Inl (IOError path))
          else if r_closeFails r then (s, Inl (IOError path))
          else
            (let hh = hashesOf tls (r_data r) in
             case slice (md5crcBuffer s) 0 md5Size of
               None \<Rightarrow> (s, Inl SliceBoundsPanic)
             | Some md5Part \<Rightarrow>
                 (let s1 = s\<lparr>md5crcBuffer :=
                             copyInto md5Part (h_Md5 hh)
                               @ copyInto (drop md5Size (md5crcBuffer s)) (h_Crc hh)\<rparr>;
                      rom = hashedRom hh name path sz
                  in
                  if onlyneeded then
                    (case DatsForRom cd (a_index s1) rom of
                       Inl e \<Rightarrow> (s1, Inl e)
                     | Inr dats \<Rightarrow>
                         if \<not> list_ex (\<lambda>dat. \<not> dat_Artificial dat) dats then (s1, Inr 0)
                         else archiveStore cd tls s1 ro hh rom sz)
                  else archiveStore cd tls s1 ro hh rom sz)))"

section \<open>The resume observer (package archive)\<close>

record Observer =
  resumeLog :: string
  sizeFiles :: "string \<rightharpoonup> int64"

text \<open>
  \<open>fmt.Fprint\<close> writes its operands in their default format, with a space between two
  operands only when neither is a string: string operands are written one after the other.
\<close>

definition Fprint :: "string \<Rightarrow> string list \<Rightarrow> string" where
  "Fprint w operands = w @ concat operands"

text \<open>
  Modelled from the spec: \<open>writeSizeFile\<close> is not part of the sources at hand; it persists
  the current size of a root in its \<open>.size\<close> file (section 3), and \<open>writeSizes\<close> only logs
  its errors. The arrays of a depot have the length of \<open>roots\<close>.
\<close>

definition writeSizes :: "Depot \<Rightarrow> (string \<rightharpoonup> int64) \<Rightarrow> (string \<rightharpoonup> int64)" where
  "writeSizes depot sf = fold (\<lambda>(root, sz) m. m(root \<mapsto> sz)) (zip (roots depot) (sizes depot)) sf"

text \<open>
  \<open>archiveMaster.writeResumeLogEntry\<close>: \<open>sort.Strings\<close> sorts \<open>comps\<close> in place, so the
  sorted array is part of the result.
\<close>

definition writeResumeLogEntry ::
  "Depot \<Rightarrow> Observer \<Rightarrow> string list \<Rightarrow> error + (Observer \<times> string list)" where
  "writeResumeLogEntry depot ob comps =
     (case comps of
        [] \<Rightarrow> Inl IndexPanic
      | c0 # _ \<Rightarrow>
          if c0 \<noteq> [] then
            (case sort comps of
               [] \<Rightarrow> Inl IndexPanic
             | s0 # rest \<Rightarrow>
                 Inr (ob\<lparr>resumeLog := Fprint (resumeLog ob) [''%s'' @ [CHR 0x0A], s0],
                         sizeFiles := writeSizes depot (sizeFiles ob)\<rparr>,
                      s0 # rest))
          else Inr (ob, comps))"

text \<open>
  \<open>archiveMaster.loopObserver\<close>, over the sequence of events the goroutine receives: a
  completion record from the channel (worker index \<open>-1\<close> is the shutdown sentinel) or a
  tick. The \<open>break\<close> after the sentinel leaves the \<open>select\<close> only, so the loop goes on.
\<close>

datatype event = Completed string int | Tick

fun observe ::
  "Depot \<Rightarrow> Observer \<Rightarrow> string list \<Rightarrow> event list \<Rightarrow> error + (Observer \<times> string list)" where
  "observe depot ob comps [] = Inr (ob, comps)"
| "observe depot ob comps (Completed path workerIndex # es) =
     (if workerIndex = -1 then
        (case writeResumeLogEntry depot ob comps of
           Inl e \<Rightarrow> Inl e
         | Inr (ob', comps') \<Rightarrow> observe depot ob' comps' es)
      else if 0 \<le> workerIndex \<and> nat workerIndex < length comps then
        observe depot ob (comps[nat workerIndex := path]) es
      else Inl IndexPanic)"
| "observe depot ob comps (Tick # es) =
     (case writeResumeLogEntry depot ob comps of
        Inl e \<Rightarrow> Inl e
      | Inr (ob', comps') \<Rightarrow> observe depot ob' comps' es)"

definition loopObserver :: "Depot \<Rightarrow> nat \<Rightarrow> event list \<Rightarrow> error + (Observer \<times> string list)" where
  "loopObserver depot numWorkers events =
     observe depot \<lparr>resumeLog = [], sizeFiles = Map.empty\<rparr> (replicate numWorkers []) events"

section \<open>Specification vocabulary for the index\<close>

text \<open>
  \<open>DatsForRom\<close> in the words of the spec, read with "non-empty" taken literally: the tiers
  \<open>sha1\<close>, \<open>md5\<close>, \<open>crc\<close> are consulted in this order, each only when the rom has the digest;
  the first tier that holds a non-empty value wins.
\<close>

definition spec_tier :: "KVStore \<Rightarrow> bytes option \<Rightarrow> bytes option" where
  "spec_tier db key =
     (case key of
        None \<Rightarrow> None
      | Some k \<Rightarrow>
          (case kv_data db k of
             None \<Rightarrow> None
           | Some v \<Rightarrow> if v = [] then None else Some v))"

definition spec_tierValue :: "kvStore \<Rightarrow> Rom \<Rightarrow> bytes option" where
  "spec_tierValue kvdb rom =
     (case spec_tier (sha1DB kvdb) (rom_Sha1 rom) of
        Some v \<Rightarrow> Some v
      | None \<Rightarrow>
          (case spec_tier (md5DB kvdb) (rom_Md5 rom) of
             Some v \<Rightarrow> Some v
           | None \<Rightarrow> spec_tier (crcDB kvdb) (rom_Crc rom)))"



text \<open>The loop of \<open>DatsForRom\<close> as a recursion over the list of 20-byte blocks.\<close>

fun getDats :: "Codec \<Rightarrow> kvStore \<Rightarrow> bytes list \<Rightarrow> error + Dat list" where
  "getDats cd kvdb [] = Inr []"
| "getDats cd kvdb (c # cs) =
     (case GetDat cd kvdb c of
        Inl e \<Rightarrow> Inl e
      | Inr None \<Rightarrow> getDats cd kvdb cs
      | Inr (Some dat) \<Rightarrow>
          (case getDats cd kvdb cs of
             Inl e \<Rightarrow> Inl e
           | Inr dats \<Rightarrow> Inr (dat # dats)))"

text \<open>
  Well-formedness of a lookup: a digest of the rom has the key size of its store, and the
  store holds no empty value under it.
\<close>

definition tierOk :: "KVStore \<Rightarrow> bytes option \<Rightarrow> bool" where
  "tierOk db key =
     (case key of
        None \<Rightarrow> True
      | Some k \<Rightarrow> length k = kv_keySize db \<and> kv_data db k \<noteq> Some [])"

definition tiersOk :: "kvStore \<Rightarrow> Rom \<Rightarrow> bool" where
  "tiersOk kvdb rom =
     (tierOk (sha1DB kvdb) (rom_Sha1 rom) \<and> tierOk (md5DB kvdb) (rom_Md5 rom)
      \<and> tierOk (crcDB kvdb) (rom_Crc rom))"

section \<open>Specification vocabulary for the depot\<close>

text \<open>
  The paths \<open>OpenRomGZ\<close> probes for a collision set, in probing order: for each 20-byte
  candidate in turn, its sharded path under each root in turn.
\<close>

definition blobPath :: "string \<Rightarrow> bytes \<Rightarrow> string" where
  "blobPath root digest = pathFromSha1HexEncoding root (EncodeToString digest) gzipSuffix"

definition probePaths :: "Depot \<Rightarrow> bytes \<Rightarrow> string list" where
  "probePaths depot sha1 = concat (map (\<lambda>c. map (\<lambda>root. blobPath root c) (roots depot)) (chunks sha1))"

text \<open>
  The trailer of a blob matches a rom when its MD5 is the MD5 of the rom or its CRC is the
  CRC of the rom. A probed path is passed over by the search of \<open>OpenRomGZ\<close> when nothing
  is there, or when a readable blob is there whose trailer does not match the rom.
\<close>

definition trailerMatches :: "Rom \<Rightarrow> Hashes \<Rightarrow> bool" where
  "trailerMatches rom hh = (rom_Md5 rom = Some (h_Md5 hh) \<or> rom_Crc rom = Some (h_Crc hh))"

definition passedOver :: "files \<Rightarrow> Rom \<Rightarrow> string \<Rightarrow> bool" where
  "passedOver fs rom q =
     (case fs q of
        None \<Rightarrow> True
      | Some (Blob hh) \<Rightarrow> \<not> trailerMatches rom hh
      | Some _ \<Rightarrow> False)"

text \<open>
  The search of \<open>OpenRomGZ\<close> for a collision set, as one pass over the list of probed paths.
\<close>

fun probeAll :: "files \<Rightarrow> Rom \<Rightarrow> string list \<Rightarrow> (error + string option) option" where
  "probeAll fs rom [] = None"
| "probeAll fs rom (rompath # rest) =
     (case PathExists fs rompath of
        Inl e \<Rightarrow> Some (Inl e)
      | Inr exists \<Rightarrow>
          if exists then
            (if rom_Crc rom \<noteq> None \<or> rom_Md5 rom \<noteq> None then
               (case HashesForGZFile fs rompath of
                  Inl e \<Rightarrow> Some (Inl e)
                | Inr hh \<Rightarrow>
                    if rom_Md5 rom \<noteq> None \<and> bytesOf (rom_Md5 rom) = h_Md5 hh
                      then Some (osOpen fs rompath)
                    else if rom_Crc rom \<noteq> None \<and> bytesOf (rom_Crc rom) = h_Crc hh
                      then Some (osOpen fs rompath)
                    else probeAll fs rom rest)
             else Some (osOpen fs rompath))
          else probeAll fs rom rest)"

text \<open>
  The invariant of section 3: every 20-byte digest inside a value of the union maps \<open>crc\<close>,
  \<open>md5\<close> and \<open>sha1\<close> is a key of the \<open>dats\<close> map. \<open>closedWrt S db\<close> says it of one store and a
  set \<open>S\<close> of Dat keys.
\<close>

definition closedWrt :: "bytes set \<Rightarrow> KVStore \<Rightarrow> bool" where
  "closedWrt S db = (\<forall>k v. kv_data db k = Some v \<longrightarrow> set (chunks v) \<subseteq> S)"

definition datsClosed :: "kvStore \<Rightarrow> bool" where
  "datsClosed kvdb =
     (closedWrt (dom (kv_data (datsDB kvdb))) (crcDB kvdb)
      \<and> closedWrt (dom (kv_data (datsDB kvdb))) (md5DB kvdb)
      \<and> closedWrt (dom (kv_data (datsDB kvdb))) (sha1DB kvdb))"

text \<open>
  The index states that arise from an index with empty stores (at any generation) through
  \<open>IndexRom\<close>, \<open>IndexDat\<close> with a 20-byte Dat digest (or none) and \<open>OrphanDats\<close>, whether the
  operation completes or returns an error.
\<close>

inductive reachable :: "Codec \<Rightarrow> kvStore \<Rightarrow> bool" for cd :: Codec where
  empty: "reachable cd
            \<lparr>generation = g,
             datsDB = \<lparr>kv_keySize = keySizeSha1, kv_data = Map.empty\<rparr>,
             crcDB = \<lparr>kv_keySize = keySizeCrc, kv_data = Map.empty\<rparr>,
             md5DB = \<lparr>kv_keySize = keySizeMd5, kv_data = Map.empty\<rparr>,
             sha1DB = \<lparr>kv_keySize = keySizeSha1, kv_data = Map.empty\<rparr>,
             crcsha1DB = \<lparr>kv_keySize = keySizeCrc, kv_data = Map.empty\<rparr>,
             md5sha1DB = \<lparr>kv_keySize = keySizeMd5, kv_data = Map.empty\<rparr>\<rparr>"
| indexRom: "reachable cd kvdb \<Longrightarrow> reachable cd (fst (kvStore_IndexRom cd kvdb rom))"
| indexDat: "reachable cd kvdb \<Longrightarrow> (\<forall>sb. sha1Bytes = Some sb \<longrightarrow> length sb = sha1Size) \<Longrightarrow>
             reachable cd (fst (kvStore_IndexDat cd kvdb dat sha1Bytes))"
| orphanDats: "reachable cd kvdb \<Longrightarrow> reachable cd (kvdb\<lparr>generation := generation kvdb + 1\<rparr>)"

text \<open>
  Vocabulary for pending batches: an operation on a union map is harmless with respect to
  a set \<open>S\<close> of Dat keys when it stores or appends digests of \<open>S\<close> only; the keys a batch
  sets; the pending operations on the three union maps.
\<close>

definition opOk :: "bytes set \<Rightarrow> batchOp \<Rightarrow> bool" where
  "opOk S x =
     (case x of
        OpSet k v \<Rightarrow> set (chunks v) \<subseteq> S
      | OpAppend k v \<Rightarrow> length v = sha1Size \<and> v \<in> S
      | OpDelete k \<Rightarrow> True)"

definition isSet :: "batchOp \<Rightarrow> bool" where
  "isSet x = (case x of OpSet k v \<Rightarrow> True | _ \<Rightarrow> False)"

definition setKeys :: "batchOp list \<Rightarrow> bytes set" where
  "setKeys ops = {k. \<exists>v. OpSet k v \<in> set ops}"

definition uops :: "kvBatch \<Rightarrow> batchOp list" where
  "uops kvb = kb_ops (crcBatch kvb) @ kb_ops (md5Batch kvb) @ kb_ops (sha1Batch kvb)"

definition batchOk :: "bytes set \<Rightarrow> kvBatch \<Rightarrow> bool" where
  "batchOk D kvb =
     (kb_keySize (datsBatch kvb) = sha1Size
      \<and> (\<forall>x\<in>set (kb_ops (datsBatch kvb)). isSet x)
      \<and> (\<forall>x\<in>set (uops kvb). opOk (D \<union> setKeys (kb_ops (datsBatch kvb))) x))"

definition extends :: "bytes \<Rightarrow> kvBatch \<Rightarrow> kvBatch \<Rightarrow> bool" where
  "extends v kvb kvb' =
     (datsBatch kvb' = datsBatch kvb
      \<and> (\<forall>x\<in>set (uops kvb'). x \<in> set (uops kvb) \<or> (\<exists>k. x = OpAppend k v)))"

section \<open>Concrete scenarios\<close>

definition digestA :: bytes where "digestA = replicate sha1Size 1"
definition digestB :: bytes where "digestB = replicate sha1Size 2"

text \<open>
  Two depots with two roots each. In \<open>depotFirstFull\<close> the first root is at its cap and the
  second has room; in \<open>depotHalfFull\<close> the first root has 5 bytes left and the second is at
  its cap.
\<close>

definition depotFirstFull :: Depot where
  "depotFirstFull = \<lparr>roots = [''/depot/a'', ''/depot/b''], sizes = [10, 5],
                      maxSizes = [10, 100], start = 0\<rparr>"

definition depotHalfFull :: Depot where
  "depotHalfFull = \<lparr>roots = [''/depot/a'', ''/depot/b''], sizes = [5, 10],
                     maxSizes = [10, 10], start = 0\<rparr>"

text \<open>
  An index whose six stores are empty, with the key sizes \<open>NewKVStoreDB\<close> opens them with.
\<close>

definition emptyKV :: "nat \<Rightarrow> KVStore" where
  "emptyKV n = \<lparr>kv_keySize = n, kv_data = Map.empty\<rparr>"

definition emptyIndex :: kvStore where
  "emptyIndex =
     \<lparr>generation = 0,
      datsDB = emptyKV keySizeSha1, crcDB = emptyKV keySizeCrc, md5DB = emptyKV keySizeMd5,
      sha1DB = emptyKV keySizeSha1, crcsha1DB = emptyKV keySizeCrc,
      md5sha1DB = emptyKV keySizeMd5\<rparr>"

definition md5K :: bytes where "md5K = replicate md5Size 3"
definition crcK :: bytes where "crcK = replicate crc32Size 4"
definition sha1K :: bytes where "sha1K = replicate sha1Size 5"

definition romT :: Rom where
  "romT = \<lparr>rom_Name = ''r.bin'', rom_Size = 12, rom_Crc = Some crcK, rom_Md5 = Some md5K,
           rom_Sha1 = Some sha1K, rom_Path = ''/in/r.bin''\<rparr>"

text \<open>
  Three catalogs and a codec that knows exactly these three: \<open>datX\<close>, which lists \<open>romT\<close>, is
  serialized as the byte 1, \<open>datY\<close> as the byte 2 and the artificial \<open>datArt\<close> as the byte
  3; every other byte string fails to decode. The digest function of the scenarios returns
  20 bytes, as SHA1 does.
\<close>

definition datX :: Dat where
  "datX = \<lparr>dat_Name = ''X'', dat_Description = [], dat_Path = ''/dats/x.dat'',
           dat_Generation = 0, dat_Artificial = False,
           dat_Games = [\<lparr>game_Name = ''g'', game_Description = [], game_Roms = [romT]\<rparr>]\<rparr>"

definition datY :: Dat where
  "datY = \<lparr>dat_Name = ''Y'', dat_Description = [], dat_Path = ''/dats/y.dat'',
           dat_Generation = 0, dat_Artificial = False, dat_Games = []\<rparr>"

definition datArt :: Dat where
  "datArt = \<lparr>dat_Name = ''Artificial Dat for r.bin'', dat_Description = [],
             dat_Path = ''/in/r.bin'', dat_Generation = 0, dat_Artificial = True,
             dat_Games = [\<lparr>game_Name = [], game_Description = [], game_Roms = [romT]\<rparr>]\<rparr>"

definition tableCodec :: Codec where
  "tableCodec =
     \<lparr>gobEncode = (\<lambda>d. if d = datX then Some [1] else if d = datY then Some [2]
                        else if d = datArt then Some [3] else None),
      gobDecode = (\<lambda>b. if b = [1] then Some datX else if b = [2] then Some datY
                        else if b = [3] then Some datArt else None),
      sha1Sum = (\<lambda>b. replicate sha1Size (of_nat (length b)))\<rparr>"



definition indexCorrupt :: kvStore where
  "indexCorrupt =
     emptyIndex
       \<lparr>datsDB := \<lparr>kv_keySize = keySizeSha1, kv_data = [digestA \<mapsto> [255]]\<rparr>,
        sha1DB := \<lparr>kv_keySize = keySizeSha1, kv_data = [sha1K \<mapsto> digestA]\<rparr>\<rparr>"

text \<open>
  A rom with the collision set \<open>digestA digestB\<close> as SHA1 and three depots of files. In
  each the blob of \<open>digestB\<close> under the first root is the only one whose trailer MD5 is the
  MD5 of the rom. In \<open>filesCrcClash\<close> the blob of \<open>digestA\<close> has the CRC of the rom in its
  trailer; in \<open>filesDistinct\<close> and \<open>filesLaterDamaged\<close> it has another CRC, and in
  \<open>filesLaterDamaged\<close> the path of \<open>digestB\<close> under the second root, probed last, holds a
  file whose trailer cannot be read.
\<close>

definition md5Other :: bytes where "md5Other = replicate md5Size 9"
definition crcOther :: bytes where "crcOther = replicate crc32Size 8"

definition romCollision :: Rom where
  "romCollision = \<lparr>rom_Name = ''r.bin'', rom_Size = 12, rom_Crc = Some crcK, rom_Md5 = Some md5K,
                   rom_Sha1 = Some (digestA @ digestB), rom_Path = []\<rparr>"

definition filesCrcClash :: files where
  "filesCrcClash =
     [blobPath ''/depot/a'' digestA \<mapsto> Blob \<lparr>h_Crc = crcK, h_Md5 = md5Other, h_Sha1 = digestA\<rparr>,
      blobPath ''/depot/a'' digestB \<mapsto> Blob \<lparr>h_Crc = crcK, h_Md5 = md5K, h_Sha1 = digestB\<rparr>]"

definition filesDistinct :: files where
  "filesDistinct =
     [blobPath ''/depot/a'' digestA \<mapsto> Blob \<lparr>h_Crc = crcOther, h_Md5 = md5Other, h_Sha1 = digestA\<rparr>,
      blobPath ''/depot/a'' digestB \<mapsto> Blob \<lparr>h_Crc = crcK, h_Md5 = md5K, h_Sha1 = digestB\<rparr>]"

definition filesLaterDamaged :: files where
  "filesLaterDamaged =
     [blobPath ''/depot/a'' digestA \<mapsto> Blob \<lparr>h_Crc = crcOther, h_Md5 = md5Other, h_Sha1 = digestA\<rparr>,
      blobPath ''/depot/a'' digestB \<mapsto> Blob \<lparr>h_Crc = crcK, h_Md5 = md5K, h_Sha1 = digestB\<rparr>,
      blobPath ''/depot/b'' digestB \<mapsto> Damaged]"

text \<open>
  \<open>indexAfterDatX\<close>: the empty index after \<open>IndexDat\<close> of \<open>datX\<close> under the key \<open>digestA\<close>.
  \<open>indexArtificial\<close>: the SHA1 of \<open>romT\<close> leads to the artificial \<open>datArt\<close> only.
\<close>

definition indexAfterDatX :: kvStore where
  "indexAfterDatX =
     \<lparr>generation = 0,
      datsDB = \<lparr>kv_keySize = keySizeSha1, kv_data = [digestA \<mapsto> [1]]\<rparr>,
      crcDB = \<lparr>kv_keySize = keySizeCrc, kv_data = [crcK \<mapsto> digestA]\<rparr>,
      md5DB = \<lparr>kv_keySize = keySizeMd5, kv_data = [md5K \<mapsto> digestA]\<rparr>,
      sha1DB = \<lparr>kv_keySize = keySizeSha1, kv_data = [sha1K \<mapsto> digestA]\<rparr>,
      crcsha1DB = \<lparr>kv_keySize = keySizeCrc, kv_data = [crcK \<mapsto> sha1K]\<rparr>,
      md5sha1DB = \<lparr>kv_keySize = keySizeMd5, kv_data = [md5K \<mapsto> sha1K]\<rparr>\<rparr>"

definition indexArtificial :: kvStore where
  "indexArtificial =
     emptyIndex
       \<lparr>datsDB := \<lparr>kv_keySize = keySizeSha1, kv_data = [digestA \<mapsto> [3]]\<rparr>,
        sha1DB := \<lparr>kv_keySize = keySizeSha1, kv_data = [sha1K \<mapsto> digestA]\<rparr>\<rparr>"

text \<open>
  An ingest of the three bytes of \<open>/in/r.bin\<close>, whose digests are those of \<open>romT\<close>, by a worker
  with a 20-byte trailer buffer, into an empty depot.
\<close>

definition toolsT :: Tools where
  "toolsT = \<lparr>hashesOf = (\<lambda>b. \<lparr>h_Crc = crcK, h_Md5 = md5K, h_Sha1 = sha1K\<rparr>),
             deflatedSize = (\<lambda>b. of_nat (length b))\<rparr>"

definition readerT :: Reader where
  "readerT = \<lparr>r_data = [1, 2, 3], r_readFails = False, r_closeFails = False\<rparr>"

definition stateArtificial :: ArchiveState where
  "stateArtificial = \<lparr>a_index = indexArtificial, a_depot = depotFirstFull, a_files = Map.empty,
                      md5crcBuffer = replicate 20 0\<rparr>"

section \<open>Union-append: the appended digests\<close>

declare chunks.simps [simp del]
declare containsSha1.simps [simp del]
declare appendUniqueLoop.simps [simp del]


lemma chunks_Nil [simp]: "chunks [] = []"
  by (simp add: chunks.simps)

lemma chunks_append_block:
  "length b = sha1Size \<Longrightarrow> chunks (b @ xs) = b # chunks xs"
  by (subst chunks.simps) auto

lemma chunks_append:
  "aligned xs \<Longrightarrow> chunks (xs @ ys) = chunks xs @ chunks ys"
proof (induction xs rule: chunks.induct)
  case (1 xs)
  show ?case
  proof (cases "xs = []")
    case True
    then show ?thesis by simp
  next
    case False
    with "1.prems" have len: "sha1Size \<le> length xs"
      unfolding aligned_def by (cases xs) (auto simp: mod_eq_0_iff_dvd dest: dvd_imp_le)
    have al: "aligned (drop sha1Size xs)" using "1.prems" len
      unfolding aligned_def by (simp add: mod_eq_0_iff_dvd)
    have "chunks (xs @ ys) = take sha1Size xs # chunks (drop sha1Size xs @ ys)"
      using False len by (subst chunks.simps) simp
    also have "\<dots> = take sha1Size xs # (chunks (drop sha1Size xs) @ chunks ys)"
      using "1.IH" [OF False al] by simp
    also have "\<dots> = chunks xs @ chunks ys"
      using False by (subst (2) chunks.simps) simp
    finally show ?thesis .
  qed
qed

lemma concat_chunks [simp]: "concat (chunks xs) = xs"
  by (induction xs rule: chunks.induct) (subst chunks.simps, simp)


lemma aligned_Nil [simp]: "aligned []"
  by (simp add: aligned_def)

lemma aligned_append [simp]: "aligned xs \<Longrightarrow> aligned (xs @ ys) = aligned ys"
  by (simp add: aligned_def mod_add_left_eq [symmetric])

lemma aligned_drop_mult: "aligned xs \<Longrightarrow> j mod sha1Size = 0 \<Longrightarrow> aligned (drop j xs)"
  unfolding aligned_def by (simp add: mod_eq_0_iff_dvd)

lemma aligned_next:
  assumes "aligned xs" "j mod sha1Size = 0" "j < length xs"
  shows "j + sha1Size \<le> length xs"
  using assms unfolding aligned_def by presburger

lemma chunks_drop_step:
  assumes "j + sha1Size \<le> length xs"
  shows "chunks (drop j xs) = take sha1Size (drop j xs) # chunks (drop (j + sha1Size) xs)"
  using assms by (subst chunks.simps) (auto simp: add.commute)

lemma containsSha1_aligned:
  "aligned dst \<Longrightarrow> j mod sha1Size = 0 \<Longrightarrow>
   containsSha1 s dst j = Some (s \<in> set (chunks (drop j dst)))"
proof (induction s dst j rule: containsSha1.induct)
  case (1 s dst j)
  show ?case
  proof (cases "j < length dst")
    case False
    then show ?thesis by (subst containsSha1.simps) simp
  next
    case True
    have le: "j + sha1Size \<le> length dst" by (rule aligned_next [OF "1.prems"(1,2) True])
    have sl: "slice dst j (j + sha1Size) = Some (take sha1Size (drop j dst))"
      using le by (simp add: slice_def)
    have nx: "(j + sha1Size) mod sha1Size = 0" using "1.prems"(2) by simp
    show ?thesis
    proof (cases "s = take sha1Size (drop j dst)")
      case True
      then show ?thesis
        using \<open>j < length dst\<close> sl chunks_drop_step [OF le]
        by (subst containsSha1.simps) simp
    next
      case False
      then show ?thesis
        using \<open>j < length dst\<close> sl chunks_drop_step [OF le]
          "1.IH" [OF \<open>j < length dst\<close> sl False "1.prems"(1) nx]
        by (subst containsSha1.simps) simp
    qed
  qed
qed

lemma appendUniqueLoop_aligned:
  "aligned dst \<Longrightarrow> aligned src \<Longrightarrow> i mod sha1Size = 0 \<Longrightarrow>
   appendUniqueLoop dst src i = Some (dst @ concat (fresh (chunks dst) (chunks (drop i src))))"
proof (induction dst src i rule: appendUniqueLoop.induct)
  case (1 dst src i)
  show ?case
  proof (cases "i < length src")
    case False
    then show ?thesis by (subst appendUniqueLoop.simps) simp
  next
    case True
    have le: "i + sha1Size \<le> length src" by (rule aligned_next [OF "1.prems"(2,3) True])
    let ?b = "take sha1Size (drop i src)"
    have sl: "slice src i (i + sha1Size) = Some ?b"
      using le by (simp add: slice_def)
    have lb: "length ?b = sha1Size" using le by simp
    have nx: "(i + sha1Size) mod sha1Size = 0" using "1.prems"(3) by simp
    have cs: "containsSha1 ?b dst 0 = Some (?b \<in> set (chunks dst))"
      using containsSha1_aligned [OF "1.prems"(1), of 0 ?b] by simp
    have step: "chunks (drop i src) = ?b # chunks (drop (i + sha1Size) src)"
      by (rule chunks_drop_step [OF le])
    show ?thesis
    proof (cases "?b \<in> set (chunks dst)")
      case True
      have "appendUniqueLoop dst src i = appendUniqueLoop dst src (i + sha1Size)"
        using \<open>i < length src\<close> sl cs True by (subst appendUniqueLoop.simps) simp
      also have "\<dots> = Some (dst @ concat (fresh (chunks dst) (chunks (drop (i + sha1Size) src))))"
        using "1.IH" [OF \<open>i < length src\<close> sl cs _ "1.prems"(2) nx] True "1.prems"(1) by simp
      finally show ?thesis using step True by simp
    next
      case False
      have al: "aligned (dst @ ?b)" using "1.prems"(1) lb by (simp add: aligned_def)
      have ch: "chunks (dst @ ?b) = chunks dst @ [?b]"
        using chunks_append [OF "1.prems"(1), of ?b] chunks_append_block [OF lb, of "[]"] by simp
      have "appendUniqueLoop dst src i = appendUniqueLoop (dst @ ?b) src (i + sha1Size)"
        using \<open>i < length src\<close> sl cs False by (subst appendUniqueLoop.simps) simp
      also have "\<dots> = Some ((dst @ ?b) @ concat (fresh (chunks (dst @ ?b)) (chunks (drop (i + sha1Size) src))))"
        using "1.IH" [OF \<open>i < length src\<close> sl cs _ "1.prems"(2) nx] False al by simp
      finally show ?thesis using step False ch by simp
    qed
  qed
qed

lemma set_fresh: "set (fresh seen cs) = set cs - set seen"
  by (induction cs arbitrary: seen) auto

lemma distinct_fresh: "distinct (fresh seen cs)"
  by (induction cs arbitrary: seen) (auto simp: set_fresh)

lemma fresh_subset: "set cs \<subseteq> set seen \<Longrightarrow> fresh seen cs = []"
  by (induction cs arbitrary: seen) auto

lemma chunks_length: "aligned xs \<Longrightarrow> c \<in> set (chunks xs) \<Longrightarrow> length c = sha1Size"
proof (induction xs rule: chunks.induct)
  case (1 xs)
  show ?case
  proof (cases "xs = []")
    case True
    with "1.prems" show ?thesis by simp
  next
    case False
    have le: "0 + sha1Size \<le> length xs"
      using aligned_next [OF "1.prems"(1), of 0] False by simp
    have al: "aligned (drop sha1Size xs)"
      using "1.prems"(1) by (simp add: aligned_drop_mult)
    from "1.prems"(2) False have "c = take sha1Size xs \<or> c \<in> set (chunks (drop sha1Size xs))"
      by (subst (asm) chunks.simps) auto
    then show ?thesis using le "1.IH" [OF False al] by auto
  qed
qed

lemma chunks_concat: "\<forall>c\<in>set cs. length c = sha1Size \<Longrightarrow> chunks (concat cs) = cs"
  by (induction cs) (auto simp: chunks_append_block)

lemma aligned_concat: "\<forall>c\<in>set cs. length c = sha1Size \<Longrightarrow> aligned (concat cs)"
  by (induction cs) (auto simp: aligned_def)



text \<open>
  The digests \<open>fresh seen cs\<close> are those of \<open>cs\<close> not in \<open>seen\<close>, each at the place of its first
  occurrence in \<open>cs\<close>: keep the digests not in \<open>seen\<close> and drop every repetition after a
  first occurrence.
\<close>

lemma remdups_snoc: "remdups (xs @ [c]) = remdups (filter (\<lambda>x. x \<noteq> c) xs) @ [c]"
  by (induction xs) auto

lemma fresh_first_occurrences:
  "fresh seen cs = rev (remdups (rev (filter (\<lambda>c. c \<notin> set seen) cs)))"
proof (induction cs arbitrary: seen)
  case Nil
  then show ?case by simp
next
  case (Cons c cs)
  show ?case
  proof (cases "c \<in> set seen")
    case True
    then show ?thesis using Cons.IH [of seen] by simp
  next
    case False
    have "filter (\<lambda>x. x \<notin> set (seen @ [c])) cs
          = filter (\<lambda>x. x \<noteq> c) (filter (\<lambda>x. x \<notin> set seen) cs)"
      by (induction cs) auto
    then show ?thesis using False Cons.IH [of "seen @ [c]"]
      by (simp add: remdups_snoc rev_filter)
  qed
qed

text \<open>
  Claim C1, as amended. For a current value \<open>dst\<close> and an appended value \<open>src\<close> that are
  both concatenations of 20-byte digests, \<open>appendUniqueSha1 dst src\<close> returns \<open>dst\<close> followed
  by the digests of \<open>src\<close> that are not in \<open>dst\<close>, each once, in the order of their first
  occurrence in \<open>src\<close> (the list \<open>fresh (chunks dst) (chunks src)\<close>): no digest is appended
  twice, none already present in \<open>dst\<close> is appended, and the digests of the result are those
  of \<open>dst\<close> followed by the appended ones. When \<open>dst\<close> itself repeats no digest, the result
  repeats none, so it contains each digest of \<open>src\<close> exactly once. Appending digests that
  are all in \<open>dst\<close> already returns \<open>dst\<close> unchanged.
\<close>

theorem appendUniqueSha1_union:
  assumes "aligned dst" and "aligned src"
  shows "appendUniqueSha1 dst src = Some (dst @ concat (fresh (chunks dst) (chunks src)))
         \<and> fresh (chunks dst) (chunks src)
             = rev (remdups (rev (filter (\<lambda>c. c \<notin> set (chunks dst)) (chunks src))))
         \<and> chunks (dst @ concat (fresh (chunks dst) (chunks src)))
             = chunks dst @ fresh (chunks dst) (chunks src)
         \<and> distinct (fresh (chunks dst) (chunks src))
         \<and> set (fresh (chunks dst) (chunks src)) = set (chunks src) - set (chunks dst)
         \<and> (distinct (chunks dst)
              \<longrightarrow> distinct (chunks (dst @ concat (fresh (chunks dst) (chunks src)))))
         \<and> (set (chunks src) \<subseteq> set (chunks dst) \<longrightarrow> appendUniqueSha1 dst src = Some dst)"
proof -
  define app where "app = fresh (chunks dst) (chunks src)"
  have res: "appendUniqueSha1 dst src = Some (dst @ concat app)"
    using appendUniqueLoop_aligned [OF assms, of 0]
    by (simp add: appendUniqueSha1_def app_def)
  have fo: "app = rev (remdups (rev (filter (\<lambda>c. c \<notin> set (chunks dst)) (chunks src))))"
    unfolding app_def by (rule fresh_first_occurrences)
  have st: "set app = set (chunks src) - set (chunks dst)"
    by (simp add: app_def set_fresh)
  have len: "\<forall>c\<in>set app. length c = sha1Size"
    using st chunks_length [OF assms(2)] by auto
  have ch: "chunks (dst @ concat app) = chunks dst @ app"
    using chunks_append [OF assms(1)] chunks_concat [OF len] by simp
  have di: "distinct app"
    by (simp add: app_def distinct_fresh)
  have d2: "distinct (chunks dst) \<longrightarrow> distinct (chunks (dst @ concat app))"
    using ch di st by auto
  have idem: "set (chunks src) \<subseteq> set (chunks dst) \<longrightarrow> appendUniqueSha1 dst src = Some dst"
    using res by (auto simp: app_def fresh_subset)
  from res fo ch di st d2 idem show ?thesis unfolding app_def by blast
qed

lemma chunks_single: "length b = sha1Size \<Longrightarrow> chunks b = [b]"
  using chunks_append_block [of b "[]"] by simp

lemma length_digestA [simp]: "length digestA = sha1Size"
  by (simp add: digestA_def)

lemma length_digestB [simp]: "length digestB = sha1Size"
  by (simp add: digestB_def)

lemma chunks_AB: "chunks (digestA @ digestB) = [digestA, digestB]"
  by (simp add: chunks_append_block chunks_single)

lemma chunks_BAB: "chunks (digestB @ digestA @ digestB) = [digestB, digestA, digestB]"
  by (simp add: chunks_append_block chunks_single)

lemma digestA_neq_B: "digestA \<noteq> digestB"
  by (simp add: digestA_def digestB_def)

text \<open>
  The theorem at \<open>dst = A B\<close> and \<open>src = B A B\<close>: every hypothesis holds there, nothing is
  fresh and the result is \<open>dst\<close>.
\<close>

theorem appendUniqueSha1_union_witness:
  "aligned (digestA @ digestB) \<and> aligned (digestB @ digestA @ digestB)
   \<and> distinct (chunks (digestA @ digestB))
   \<and> set (chunks (digestB @ digestA @ digestB)) \<subseteq> set (chunks (digestA @ digestB))
   \<and> fresh (chunks (digestA @ digestB)) (chunks (digestB @ digestA @ digestB)) = []
   \<and> appendUniqueSha1 (digestA @ digestB) (digestB @ digestA @ digestB) = Some (digestA @ digestB)"
proof -
  have a1: "aligned (digestA @ digestB)"
    by (simp add: aligned_def digestA_def digestB_def)
  have a2: "aligned (digestB @ digestA @ digestB)"
    by (simp add: aligned_def digestA_def digestB_def)
  have d: "distinct (chunks (digestA @ digestB))"
    using digestA_neq_B by (simp add: chunks_AB)
  have s: "set (chunks (digestB @ digestA @ digestB)) \<subseteq> set (chunks (digestA @ digestB))"
    by (simp add: chunks_AB chunks_BAB)
  have f: "fresh (chunks (digestA @ digestB)) (chunks (digestB @ digestA @ digestB)) = []"
    by (simp add: chunks_AB chunks_BAB)
  from appendUniqueSha1_union [OF a1 a2] s
  have "appendUniqueSha1 (digestA @ digestB) (digestB @ digestA @ digestB) = Some (digestA @ digestB)"
    by blast
  with a1 a2 d s f show ?thesis by blast
qed

text \<open>
  The order of the appended digests: appending \<open>B A B\<close> to the empty value gives \<open>B A\<close>.
\<close>

lemma appendUniqueSha1_order:
  "appendUniqueSha1 [] (digestB @ digestA @ digestB) = Some (digestB @ digestA)"
proof -
  have a2: "aligned (digestB @ digestA @ digestB)"
    by (simp add: aligned_def digestA_def digestB_def)
  from appendUniqueLoop_aligned [of "[]" "digestB @ digestA @ digestB" 0, OF _ a2]
  show ?thesis using digestA_neq_B by (auto simp: appendUniqueSha1_def chunks_BAB)
qed

text \<open>
  Claim C1 as stated fails for a current value that repeats a digest: with \<open>dst = A A\<close> and
  \<open>src = A\<close> the result is \<open>A A\<close>, which contains the digest \<open>A\<close> of \<open>src\<close> twice. The
  function never rewrites \<open>dst\<close>; it only decides what to append.
\<close>

theorem appendUniqueSha1_keeps_repeats_of_dst:
  "aligned (digestA @ digestA) \<and> digestA \<in> set (chunks digestA)
   \<and> appendUniqueSha1 (digestA @ digestA) digestA = Some (digestA @ digestA)
   \<and> count_list (chunks (digestA @ digestA)) digestA = 2"
proof -
  have a1: "aligned (digestA @ digestA)" and a2: "aligned digestA"
    by (simp_all add: aligned_def digestA_def)
  have c1: "chunks (digestA @ digestA) = [digestA, digestA]"
    by (simp add: chunks_append_block chunks_single)
  have c2: "chunks digestA = [digestA]"
    by (simp add: chunks_single)
  have "appendUniqueSha1 (digestA @ digestA) digestA = Some (digestA @ digestA)"
    using appendUniqueLoop_aligned [OF a1 a2, of 0]
    by (simp add: appendUniqueSha1_def c1 c2)
  then show ?thesis using a1 c1 c2 by simp
qed

section \<open>Root reservation\<close>

declare reserveLoop.simps [simp del]

lemma reserveLoop_success:
  "reserveLoop depot sz i = (depot', Inr k) \<Longrightarrow>
     i \<le> k \<and> k < length (roots depot) \<and> k < length (sizes depot) \<and> k < length (maxSizes depot)
     \<and> sint (sizes depot ! k + sz) < sint (maxSizes depot ! k)
     \<and> sizes depot' = (sizes depot)[k := sizes depot ! k + sz]
     \<and> maxSizes depot' = maxSizes depot \<and> roots depot' = roots depot"
proof (induction depot sz i rule: reserveLoop.induct)
  case (1 depot sz i)
  from "1.prems" have inr: "i < length (roots depot)"
    and inb: "i < length (sizes depot) \<and> i < length (maxSizes depot)"
    by (subst (asm) reserveLoop.simps, simp split: if_splits)+
  show ?case
  proof (cases "sint (sizes depot ! i + sz) < sint (maxSizes depot ! i)")
    case True
    with "1.prems" inr inb show ?thesis
      by (subst (asm) reserveLoop.simps) auto
  next
    case fit: False
    show ?thesis
    proof (cases "sint (sizes depot ! i) \<ge> sint (maxSizes depot ! i)")
      case True
      with "1.prems" inr inb fit
      have "reserveLoop (depot\<lparr>start := i\<rparr>) sz (i + 1) = (depot', Inr k)"
        by (subst (asm) reserveLoop.simps) simp
      from "1.IH"(1) [OF inr inb fit True this] show ?thesis by simp
    next
      case False
      with "1.prems" inr inb fit
      have "reserveLoop depot sz (i + 1) = (depot', Inr k)"
        by (subst (asm) reserveLoop.simps) simp
      from "1.IH"(2) [OF inr inb fit False this] show ?thesis by simp
    qed
  qed
qed

lemma reserveLoop_out_of_space:
  "reserveLoop depot sz i = (depot', Inl OutOfSpace) \<Longrightarrow>
     sizes depot' = sizes depot \<and> maxSizes depot' = maxSizes depot \<and> roots depot' = roots depot
     \<and> (start depot' = start depot
        \<or> (i \<le> start depot' \<and> start depot' < length (roots depot)
            \<and> sint (maxSizes depot ! start depot') \<le> sint (sizes depot ! start depot')))"
proof (induction depot sz i rule: reserveLoop.induct)
  case (1 depot sz i)
  show ?case
  proof (cases "i < length (roots depot)")
    case False
    with "1.prems" show ?thesis
      by (subst (asm) reserveLoop.simps) auto
  next
    case inr: True
    from "1.prems" inr have inb: "i < length (sizes depot) \<and> i < length (maxSizes depot)"
      by (subst (asm) reserveLoop.simps) (simp split: if_splits)
    from "1.prems" inr inb have fit: "\<not> sint (sizes depot ! i + sz) < sint (maxSizes depot ! i)"
      by (subst (asm) reserveLoop.simps) (simp split: if_splits)
    show ?thesis
    proof (cases "sint (sizes depot ! i) \<ge> sint (maxSizes depot ! i)")
      case True
      with "1.prems" inr inb fit
      have "reserveLoop (depot\<lparr>start := i\<rparr>) sz (i + 1) = (depot', Inl OutOfSpace)"
        by (subst (asm) reserveLoop.simps) simp
      from "1.IH"(1) [OF inr inb fit True this] True inr show ?thesis by auto
    next
      case False
      with "1.prems" inr inb fit
      have "reserveLoop depot sz (i + 1) = (depot', Inl OutOfSpace)"
        by (subst (asm) reserveLoop.simps) simp
      from "1.IH"(2) [OF inr inb fit False this] show ?thesis by auto
    qed
  qed
qed

lemma sint_add_no_overflow:
  fixes a b :: int64
  assumes "- (2 ^ 63) \<le> sint a + sint b" and "sint a + sint b < 2 ^ 63"
  shows "sint (a + b) = sint a + sint b"
  using assms by (simp add: sint_word_ariths signed_take_bit_int_eq_self)

text \<open>
  Claim C2. If \<open>reserveRoot\<close> succeeds with index \<open>i\<close>, then \<open>i\<close> is a root at or after the
  cursor, it was chosen because \<open>sizes[i] + size < maxSizes[i]\<close> held (in the \<open>int64\<close>
  arithmetic of the code), the commit replaced \<open>sizes[i]\<close> by \<open>sizes[i] + size\<close> and touched
  no other size and no cap, so that \<open>sizes[i] \<le> maxSizes[i]\<close> right after the reservation.
  When the sum does not leave the \<open>int64\<close> range the new size is the old one plus the
  estimate as integers too. This holds for every estimate, non-negative or not.
\<close>

theorem reserveRoot_admission:
  assumes "reserveRoot depot sz = (depot', Inr i)"
  shows "i < length (roots depot) \<and> start depot \<le> i
         \<and> sint (sizes depot ! i + sz) < sint (maxSizes depot ! i)
         \<and> sizes depot' = (sizes depot)[i := sizes depot ! i + sz]
         \<and> sizes depot' ! i = sizes depot ! i + sz
         \<and> maxSizes depot' = maxSizes depot
         \<and> sint (sizes depot' ! i) \<le> sint (maxSizes depot' ! i)
         \<and> (- (2 ^ 63) \<le> sint (sizes depot ! i) + sint sz \<and> sint (sizes depot ! i) + sint sz < 2 ^ 63
              \<longrightarrow> sint (sizes depot' ! i) = sint (sizes depot ! i) + sint sz)"
proof -
  from assms have loop: "reserveLoop depot sz (start depot) = (depot', Inr i)"
    by (simp add: reserveRoot_def)
  note s = reserveLoop_success [OF loop]
  from s have at: "sizes depot' ! i = sizes depot ! i + sz" by simp
  from s at have le: "sint (sizes depot' ! i) \<le> sint (maxSizes depot' ! i)" by simp
  from at have "- (2 ^ 63) \<le> sint (sizes depot ! i) + sint sz \<and> sint (sizes depot ! i) + sint sz < 2 ^ 63
              \<longrightarrow> sint (sizes depot' ! i) = sint (sizes depot ! i) + sint sz"
    using sint_add_no_overflow [of "sizes depot ! i" sz] by simp
  with s at le show ?thesis by simp
qed

lemma reserveRoot_depotFirstFull:
  "reserveRoot depotFirstFull 20 = (depotFirstFull\<lparr>sizes := [10, 25]\<rparr>, Inr 1)"
  by (simp add: reserveRoot_def depotFirstFull_def reserveLoop.simps)

text \<open>
  The theorem at \<open>depotFirstFull\<close> with an estimate of 20 bytes: the first root is full, the
  second is reserved and grows from 5 to 25 bytes, below its cap of 100.
\<close>

theorem reserveRoot_admission_witness:
  "reserveRoot depotFirstFull 20 = (depotFirstFull\<lparr>sizes := [10, 25]\<rparr>, Inr 1)
   \<and> - (2 ^ 63) \<le> sint (sizes depotFirstFull ! 1) + sint (20 :: int64)
   \<and> sint (sizes depotFirstFull ! 1) + sint (20 :: int64) < 2 ^ 63
   \<and> sint (sizes (depotFirstFull\<lparr>sizes := [10, 25]\<rparr>) ! 1)
       = sint (sizes depotFirstFull ! 1) + sint (20 :: int64)
   \<and> sint (sizes (depotFirstFull\<lparr>sizes := [10, 25]\<rparr>) ! 1)
       \<le> sint (maxSizes (depotFirstFull\<lparr>sizes := [10, 25]\<rparr>) ! 1)"
proof -
  have r: "- (2 ^ 63) \<le> sint (sizes depotFirstFull ! 1) + sint (20 :: int64)
           \<and> sint (sizes depotFirstFull ! 1) + sint (20 :: int64) < 2 ^ 63"
    by (simp add: depotFirstFull_def)
  from reserveRoot_admission [OF reserveRoot_depotFirstFull] r reserveRoot_depotFirstFull
  show ?thesis by blast
qed

text \<open>
  Claim C10, as amended. If \<open>reserveRoot\<close> fails with the out-of-space error, then no size,
  no cap and no root has changed. Only the cursor may have changed: it never moves back,
  and if it moved it now is the index of a root whose size had reached its cap.
\<close>

theorem reserveRoot_out_of_space_frame:
  assumes "reserveRoot depot sz = (depot', Inl OutOfSpace)"
  shows "sizes depot' = sizes depot \<and> maxSizes depot' = maxSizes depot
         \<and> roots depot' = roots depot \<and> start depot \<le> start depot'
         \<and> (start depot' \<noteq> start depot \<longrightarrow>
               start depot' < length (roots depot)
               \<and> sint (maxSizes depot ! start depot') \<le> sint (sizes depot ! start depot'))"
proof -
  from assms have "reserveLoop depot sz (start depot) = (depot', Inl OutOfSpace)"
    by (simp add: reserveRoot_def)
  from reserveLoop_out_of_space [OF this] show ?thesis by auto
qed

lemma reserveRoot_depotHalfFull:
  "reserveRoot depotHalfFull 6 = (depotHalfFull\<lparr>start := 1\<rparr>, Inl OutOfSpace)"
  by (simp add: reserveRoot_def depotHalfFull_def reserveLoop.simps)

text \<open>
  The theorem at \<open>depotHalfFull\<close> with an estimate of 6 bytes: no root fits, the sizes stay
  \<open>[5, 10]\<close> and the cursor moves from 0 to 1, the root at its cap.
\<close>

theorem reserveRoot_out_of_space_frame_witness:
  "reserveRoot depotHalfFull 6 = (depotHalfFull\<lparr>start := 1\<rparr>, Inl OutOfSpace)
   \<and> start (depotHalfFull\<lparr>start := 1\<rparr>) \<noteq> start depotHalfFull
   \<and> sizes (depotHalfFull\<lparr>start := 1\<rparr>) = sizes depotHalfFull
   \<and> sint (maxSizes depotHalfFull ! start (depotHalfFull\<lparr>start := 1\<rparr>))
       \<le> sint (sizes depotHalfFull ! start (depotHalfFull\<lparr>start := 1\<rparr>))"
proof -
  have m: "start (depotHalfFull\<lparr>start := 1\<rparr>) \<noteq> start depotHalfFull"
    by (simp add: depotHalfFull_def)
  from reserveRoot_out_of_space_frame [OF reserveRoot_depotHalfFull] m reserveRoot_depotHalfFull
  show ?thesis by blast
qed

text \<open>
  Claim C10 as stated fails in its last part: at \<open>depotHalfFull\<close> the failed call moves the
  cursor from root 0 to root 1, past root 0, whose size 5 has not reached its cap 10.
\<close>

theorem reserveRoot_cursor_skips_root_with_room:
  "reserveRoot depotHalfFull 6 = (depotHalfFull\<lparr>start := 1\<rparr>, Inl OutOfSpace)
   \<and> start depotHalfFull = 0 \<and> start (depotHalfFull\<lparr>start := 1\<rparr>) = 1
   \<and> sint (sizes depotHalfFull ! 0) < sint (maxSizes depotHalfFull ! 0)"
  by (simp add: reserveRoot_def depotHalfFull_def reserveLoop.simps)

section \<open>Resolving the Dats of a rom\<close>

declare datsLoop.simps [simp del]

lemma datsLoop_chunks:
  "aligned dBytes \<Longrightarrow> i mod sha1Size = 0 \<Longrightarrow>
   datsLoop cd kvdb dBytes i acc =
     (case getDats cd kvdb (chunks (drop i dBytes)) of
        Inl e \<Rightarrow> Inl e
      | Inr dats \<Rightarrow> Inr (acc @ dats))"
proof (induction cd kvdb dBytes i acc rule: datsLoop.induct)
  case (1 cd kvdb dBytes i acc)
  show ?case
  proof (cases "i < length dBytes")
    case False
    then show ?thesis by (subst datsLoop.simps) simp
  next
    case True
    have le: "i + sha1Size \<le> length dBytes"
      by (rule aligned_next [OF "1.prems"(1,2) True])
    let ?c = "take sha1Size (drop i dBytes)"
    have sl: "slice dBytes i (i + sha1Size) = Some ?c"
      using le by (simp add: slice_def)
    have nx: "(i + sha1Size) mod sha1Size = 0" using "1.prems"(2) by simp
    have step: "chunks (drop i dBytes) = ?c # chunks (drop (i + sha1Size) dBytes)"
      by (rule chunks_drop_step [OF le])
    show ?thesis
    proof (cases "GetDat cd kvdb ?c")
      case (Inl e)
      then show ?thesis using True sl step by (subst datsLoop.simps) simp
    next
      case (Inr r)
      show ?thesis
      proof (cases r)
        case None
        with Inr have g: "GetDat cd kvdb ?c = Inr None" by simp
        from "1.IH"(1) [OF True sl Inr None "1.prems"(1) nx] g True sl step
        show ?thesis by (subst datsLoop.simps) simp
      next
        case (Some dat)
        with Inr have g: "GetDat cd kvdb ?c = Inr (Some dat)" by simp
        from "1.IH"(2) [OF True sl Inr Some "1.prems"(1) nx] g True sl step
        show ?thesis by (subst datsLoop.simps) (simp split: sum.splits)
      qed
    qed
  qed
qed

lemma kvGet_tierOk:
  "tierOk db (Some k) \<Longrightarrow> kvGet db k = Inr (kv_data db k)"
  by (simp add: tierOk_def kvGet_def)

lemma spec_tier_None_iff:
  "tierOk db (Some k) \<Longrightarrow> spec_tier db (Some k) = kv_data db k"
  by (auto simp: tierOk_def spec_tier_def split: option.splits)

lemma DatsForRom_tiers:
  assumes ok: "tiersOk kvdb rom"
  shows "DatsForRom cd kvdb rom =
           (case spec_tierValue kvdb rom of
              None \<Rightarrow> Inr []
            | Some v \<Rightarrow> datsLoop cd kvdb v 0 [])"
proof -
  have s: "rom_Sha1 rom = Some k \<Longrightarrow>
             kvGet (sha1DB kvdb) k = Inr (spec_tier (sha1DB kvdb) (Some k))" for k
    using ok by (simp add: tiersOk_def kvGet_tierOk spec_tier_None_iff)
  have m: "rom_Md5 rom = Some k \<Longrightarrow>
             kvGet (md5DB kvdb) k = Inr (spec_tier (md5DB kvdb) (Some k))" for k
    using ok by (simp add: tiersOk_def kvGet_tierOk spec_tier_None_iff)
  have c: "rom_Crc rom = Some k \<Longrightarrow>
             kvGet (crcDB kvdb) k = Inr (spec_tier (crcDB kvdb) (Some k))" for k
    using ok by (simp add: tiersOk_def kvGet_tierOk spec_tier_None_iff)
  have n: "spec_tier db None = None" for db
    by (simp add: spec_tier_def)
  show ?thesis
    unfolding DatsForRom_def spec_tierValue_def
    by (cases "rom_Sha1 rom"; cases "rom_Md5 rom"; cases "rom_Crc rom")
       (auto simp: s m c n split: option.splits)
qed




lemma digest_simps [simp]:
  "digestA \<noteq> digestB" "digestB \<noteq> digestA" "aligned digestA" "aligned digestB"
  "chunks digestA = [digestA]" "chunks digestB = [digestB]"
  "length md5K = md5Size" "length crcK = crc32Size" "length sha1K = sha1Size"
  "digestA \<noteq> []" "digestB \<noteq> []"
  by (simp_all add: chunks_single aligned_def)
     (simp_all add: digestA_def digestB_def md5K_def crcK_def sha1K_def)




section \<open>A Dat that does not decode\<close>

lemma getDats_error:
  "c \<in> set cs \<Longrightarrow> GetDat cd kvdb c = Inl e \<Longrightarrow> \<exists>e'. getDats cd kvdb cs = Inl e'"
  by (induction cs) (auto split: sum.splits option.splits)

text \<open>
  Claim C9, as amended. When the bytes stored under a Dat key fail to decode, \<open>GetDat\<close>
  returns the decode error for that key, and \<open>DatsForRom\<close> returns an error, not a list of
  Dats, for every rom whose winning tier names that key.
\<close>

theorem GetDat_decode_failure_is_error:
  assumes "kvGet (datsDB kvdb) k = Inr (Some b)" and "gobDecode cd b = None"
  shows "GetDat cd kvdb k = Inl DecodeError
         \<and> (tiersOk kvdb rom \<and> spec_tierValue kvdb rom = Some v \<and> aligned v \<and> k \<in> set (chunks v)
              \<longrightarrow> (\<exists>e. DatsForRom cd kvdb rom = Inl e))"
proof -
  have g: "GetDat cd kvdb k = Inl DecodeError"
    using assms by (simp add: GetDat_def)
  have "\<exists>e. DatsForRom cd kvdb rom = Inl e"
    if ok: "tiersOk kvdb rom" and tv: "spec_tierValue kvdb rom = Some v"
      and al: "aligned v" and k: "k \<in> set (chunks v)"
  proof -
    have "datsLoop cd kvdb v 0 [] = getDats cd kvdb (chunks v)"
      using datsLoop_chunks [OF al, of 0 cd kvdb "[]"] by (simp split: sum.splits)
    then show ?thesis
      using DatsForRom_tiers [OF ok, of cd] tv getDats_error [OF k g] by auto
  qed
  with g show ?thesis by blast
qed

lemma kvGet_indexCorrupt: "kvGet (datsDB indexCorrupt) digestA = Inr (Some [255])"
  by (simp add: kvGet_def indexCorrupt_def emptyIndex_def)

lemma decode_garbage: "gobDecode tableCodec [255] = None"
  by (simp add: tableCodec_def)

lemma tiersOk_indexCorrupt: "tiersOk indexCorrupt romT"
  by (simp add: tiersOk_def tierOk_def indexCorrupt_def emptyIndex_def emptyKV_def romT_def)

lemma spec_tierValue_indexCorrupt: "spec_tierValue indexCorrupt romT = Some digestA"
  by (simp add: spec_tierValue_def spec_tier_def indexCorrupt_def emptyIndex_def emptyKV_def
      romT_def)

text \<open>
  The theorem at \<open>indexCorrupt\<close>: the key \<open>digestA\<close> holds bytes that do not decode, and the
  SHA1 of \<open>romT\<close> resolves to that key.
\<close>

theorem GetDat_decode_failure_is_error_witness:
  "kvGet (datsDB indexCorrupt) digestA = Inr (Some [255]) \<and> gobDecode tableCodec [255] = None
   \<and> tiersOk indexCorrupt romT \<and> spec_tierValue indexCorrupt romT = Some digestA
   \<and> aligned digestA \<and> digestA \<in> set (chunks digestA)
   \<and> GetDat tableCodec indexCorrupt digestA = Inl DecodeError
   \<and> (\<exists>e. DatsForRom tableCodec indexCorrupt romT = Inl e)"
proof -
  have pre: "tiersOk indexCorrupt romT \<and> spec_tierValue indexCorrupt romT = Some digestA
             \<and> aligned digestA \<and> digestA \<in> set (chunks digestA)"
    by (simp add: tiersOk_indexCorrupt spec_tierValue_indexCorrupt)
  from GetDat_decode_failure_is_error [OF kvGet_indexCorrupt decode_garbage, of romT digestA] pre
  show ?thesis using kvGet_indexCorrupt decode_garbage by blast
qed

text \<open>
  Claim C9 as stated fails at \<open>indexCorrupt\<close>: the claim has \<open>GetDat\<close> report no Dat
  (\<open>Inr None\<close>) and \<open>DatsForRom\<close> return the empty list; the code returns the decode error
  from both.
\<close>

theorem decode_failure_not_treated_as_absent:
  "kvGet (datsDB indexCorrupt) digestA = Inr (Some [255]) \<and> gobDecode tableCodec [255] = None
   \<and> GetDat tableCodec indexCorrupt digestA = Inl DecodeError
   \<and> GetDat tableCodec indexCorrupt digestA \<noteq> Inr None
   \<and> DatsForRom tableCodec indexCorrupt romT = Inl DecodeError
   \<and> DatsForRom tableCodec indexCorrupt romT \<noteq> Inr []"
proof -
  have g: "GetDat tableCodec indexCorrupt digestA = Inl DecodeError"
    by (simp add: GetDat_def kvGet_indexCorrupt decode_garbage)
  have "DatsForRom tableCodec indexCorrupt romT = getDats tableCodec indexCorrupt [digestA]"
    using DatsForRom_tiers [OF tiersOk_indexCorrupt, of tableCodec]
      datsLoop_chunks [of digestA 0 tableCodec indexCorrupt "[]"]
    by (simp add: spec_tierValue_indexCorrupt split: sum.splits)
  then have d: "DatsForRom tableCodec indexCorrupt romT = Inl DecodeError"
    by (simp add: g)
  from g d show ?thesis using kvGet_indexCorrupt decode_garbage by simp
qed

section \<open>Opening a rom with a collision set\<close>

declare openCandidates.simps [simp del]

lemma openMatchingInRoots_probeAll:
  "openMatchingInRoots fs rom (EncodeToString c) rs
   = probeAll fs rom (map (\<lambda>root. blobPath root c) rs)"
  by (induction rs) (auto simp: blobPath_def Let_def split: sum.splits)

lemma probeAll_append:
  "probeAll fs rom (ps @ qs)
   = (case probeAll fs rom ps of Some r \<Rightarrow> Some r | None \<Rightarrow> probeAll fs rom qs)"
  by (induction ps) (auto split: sum.splits)

lemma openCandidates_probeAll:
  "aligned sha1 \<Longrightarrow> i mod sha1Size = 0 \<Longrightarrow>
   openCandidates depot fs rom sha1 i
   = (case probeAll fs rom (probePaths depot (drop i sha1)) of
        Some r \<Rightarrow> r
      | None \<Rightarrow> Inr None)"
proof (induction depot fs rom sha1 i rule: openCandidates.induct)
  case (1 depot fs rom sha1 i)
  show ?case
  proof (cases "i < length sha1")
    case False
    then show ?thesis
      by (subst openCandidates.simps) (simp add: probePaths_def)
  next
    case True
    have le: "i + sha1Size \<le> length sha1"
      by (rule aligned_next [OF "1.prems" True])
    let ?c = "take sha1Size (drop i sha1)"
    have sl: "slice sha1 i (i + sha1Size) = Some ?c"
      using le by (simp add: slice_def)
    have nx: "(i + sha1Size) mod sha1Size = 0" using "1.prems"(2) by simp
    have step: "probePaths depot (drop i sha1)
                = map (\<lambda>root. blobPath root ?c) (roots depot)
                  @ probePaths depot (drop (i + sha1Size) sha1)"
      using chunks_drop_step [OF le] by (simp add: probePaths_def)
    show ?thesis
    proof (cases "openMatchingInRoots fs rom (EncodeToString ?c) (roots depot)")
      case (Some r)
      then show ?thesis using True sl step
        by (subst openCandidates.simps)
           (simp add: probeAll_append openMatchingInRoots_probeAll [symmetric])
    next
      case None
      from "1.IH" [OF True sl None "1.prems"(1) nx] None True sl step
      show ?thesis
        by (subst openCandidates.simps)
           (simp add: probeAll_append openMatchingInRoots_probeAll [symmetric])
    qed
  qed
qed

lemma probeAll_passed:
  assumes "rom_Md5 rom \<noteq> None \<or> rom_Crc rom \<noteq> None"
  shows "\<forall>q\<in>set before. passedOver fs rom q \<Longrightarrow>
         probeAll fs rom (before @ rest) = probeAll fs rom rest"
proof (induction before)
  case Nil
  then show ?case by simp
next
  case (Cons q qs)
  then have po: "passedOver fs rom q" and ih: "probeAll fs rom (qs @ rest) = probeAll fs rom rest"
    by simp_all
  show ?case
  proof (cases "fs q")
    case None
    then show ?thesis using ih by (simp add: PathExists_def)
  next
    case (Some node)
    with po obtain hh where n: "node = Blob hh" and nm: "\<not> trailerMatches rom hh"
      by (cases node) (auto simp: passedOver_def)
    from nm have "\<not> (rom_Md5 rom \<noteq> None \<and> bytesOf (rom_Md5 rom) = h_Md5 hh)"
      and "\<not> (rom_Crc rom \<noteq> None \<and> bytesOf (rom_Crc rom) = h_Crc hh)"
      by (auto simp: trailerMatches_def bytesOf_def)
    with Some n ih assms show ?thesis
      by (auto simp: PathExists_def HashesForGZFile_def)
  qed
qed

lemma probeAll_hit:
  assumes "fs p = Some (Blob hh)" and "trailerMatches rom hh"
  shows "probeAll fs rom (p # rest) = Some (Inr (Some p))"
proof -
  from assms(2) have "(rom_Md5 rom \<noteq> None \<and> bytesOf (rom_Md5 rom) = h_Md5 hh)
                      \<or> (rom_Crc rom \<noteq> None \<and> bytesOf (rom_Crc rom) = h_Crc hh)"
    by (auto simp: trailerMatches_def bytesOf_def)
  with assms(1) show ?thesis
    by (auto simp: PathExists_def HashesForGZFile_def osOpen_def)
qed

text \<open>
  Claim C5, as amended. For a rom whose SHA1 is a collision set (whole 20-byte digests, not
  just one), \<open>OpenRomGZ\<close> probes the candidates in order, each under every root in order,
  and returns the first probed blob whose trailer MD5 equals the MD5 of the rom or whose
  trailer CRC equals its CRC, when every path probed before it holds nothing or a readable
  blob whose trailer matches neither; what the paths probed after it hold does not matter.
  In particular, when exactly one candidate blob has the MD5 of the rom in its trailer and
  no blob probed before it has the CRC of the rom, that blob is returned.
\<close>

theorem OpenRomGZ_disambiguates_by_md5:
  assumes "rom_Sha1 rom = Some sha1" and "aligned sha1" and "length sha1 \<noteq> sha1Size"
    and "probePaths depot sha1 = before @ p # after"
    and "\<forall>q\<in>set before. passedOver fs rom q"
    and "fs p = Some (Blob hh)" and "trailerMatches rom hh"
  shows "OpenRomGZ depot fs rom = Inr (Some p)"
proof -
  from assms(7) have has: "rom_Md5 rom \<noteq> None \<or> rom_Crc rom \<noteq> None"
    by (auto simp: trailerMatches_def)
  have "probeAll fs rom (probePaths depot sha1) = Some (Inr (Some p))"
    using probeAll_passed [where fs = fs and rom = rom and before = before and rest = "p # after"]
      probeAll_hit [where fs = fs and p = p and hh = hh and rom = rom and rest = after]
      has assms(5,6,7)
    by (simp add: assms(4))
  then have "openCandidates depot fs rom sha1 0 = Inr (Some p)"
    using openCandidates_probeAll [where ?sha1.0 = sha1 and i = 0 and depot = depot
        and fs = fs and rom = rom] assms(2) by simp
  with assms(1,3) show ?thesis by (simp add: OpenRomGZ_def)
qed

lemma hex_digestA: "EncodeToString digestA = ''0101010101010101010101010101010101010101''"
  by code_simp

lemma hex_digestB: "EncodeToString digestB = ''0202020202020202020202020202020202020202''"
  by code_simp

lemma blobPath_aA:
  "blobPath ''/depot/a'' digestA
   = ''/depot/a/01/01/01/01/0101010101010101010101010101010101010101.gz''"
  by (simp add: blobPath_def pathFromSha1HexEncoding_def hex_digestA gzipSuffix_def)

lemma blobPath_bA:
  "blobPath ''/depot/b'' digestA
   = ''/depot/b/01/01/01/01/0101010101010101010101010101010101010101.gz''"
  by (simp add: blobPath_def pathFromSha1HexEncoding_def hex_digestA gzipSuffix_def)

lemma blobPath_aB:
  "blobPath ''/depot/a'' digestB
   = ''/depot/a/02/02/02/02/0202020202020202020202020202020202020202.gz''"
  by (simp add: blobPath_def pathFromSha1HexEncoding_def hex_digestB gzipSuffix_def)

lemma blobPath_bB:
  "blobPath ''/depot/b'' digestB
   = ''/depot/b/02/02/02/02/0202020202020202020202020202020202020202.gz''"
  by (simp add: blobPath_def pathFromSha1HexEncoding_def hex_digestB gzipSuffix_def)

lemmas blobPaths = blobPath_aA blobPath_bA blobPath_aB blobPath_bB

lemma probePaths_collision:
  "probePaths depotFirstFull (digestA @ digestB)
   = [blobPath ''/depot/a'' digestA, blobPath ''/depot/b'' digestA,
      blobPath ''/depot/a'' digestB, blobPath ''/depot/b'' digestB]"
  by (simp add: probePaths_def chunks_AB depotFirstFull_def)

lemma hash_consts [simp]:
  "md5Other \<noteq> md5K" "crcOther \<noteq> crcK" "crcK \<noteq> crcOther" "md5K \<noteq> md5Other"
  by (simp_all add: md5Other_def md5K_def crcOther_def crcK_def)

text \<open>
  The theorem at two inputs. At \<open>filesLaterDamaged\<close> the blob of \<open>digestB\<close> under the first
  root is the only one with the MD5 of \<open>romCollision\<close>; the blob of \<open>digestA\<close>, probed before
  it, matches neither MD5 nor CRC, and the unreadable file probed after it is never
  examined: \<open>OpenRomGZ\<close> returns the blob of \<open>digestB\<close>. At \<open>filesCrcClash\<close> the first probed
  blob has the CRC of the rom and is returned.
\<close>

theorem OpenRomGZ_disambiguates_by_md5_witness:
  "rom_Sha1 romCollision = Some (digestA @ digestB) \<and> aligned (digestA @ digestB)
   \<and> length (digestA @ digestB) \<noteq> sha1Size
   \<and> probePaths depotFirstFull (digestA @ digestB)
       = [blobPath ''/depot/a'' digestA, blobPath ''/depot/b'' digestA]
         @ blobPath ''/depot/a'' digestB # [blobPath ''/depot/b'' digestB]
   \<and> passedOver filesLaterDamaged romCollision (blobPath ''/depot/a'' digestA)
   \<and> passedOver filesLaterDamaged romCollision (blobPath ''/depot/b'' digestA)
   \<and> filesLaterDamaged (blobPath ''/depot/a'' digestB)
       = Some (Blob \<lparr>h_Crc = crcK, h_Md5 = md5K, h_Sha1 = digestB\<rparr>)
   \<and> trailerMatches romCollision \<lparr>h_Crc = crcK, h_Md5 = md5K, h_Sha1 = digestB\<rparr>
   \<and> filesLaterDamaged (blobPath ''/depot/b'' digestB) = Some Damaged
   \<and> OpenRomGZ depotFirstFull filesLaterDamaged romCollision
       = Inr (Some (blobPath ''/depot/a'' digestB))
   \<and> filesCrcClash (blobPath ''/depot/a'' digestA)
       = Some (Blob \<lparr>h_Crc = crcK, h_Md5 = md5Other, h_Sha1 = digestA\<rparr>)
   \<and> trailerMatches romCollision \<lparr>h_Crc = crcK, h_Md5 = md5Other, h_Sha1 = digestA\<rparr>
   \<and> OpenRomGZ depotFirstFull filesCrcClash romCollision
       = Inr (Some (blobPath ''/depot/a'' digestA))"
proof -
  have h1: "rom_Sha1 romCollision = Some (digestA @ digestB)"
    by (simp add: romCollision_def)
  have h2: "aligned (digestA @ digestB)" and h3: "length (digestA @ digestB) \<noteq> sha1Size"
    by (simp_all add: aligned_def)
  have h4: "probePaths depotFirstFull (digestA @ digestB)
            = [blobPath ''/depot/a'' digestA, blobPath ''/depot/b'' digestA]
              @ blobPath ''/depot/a'' digestB # [blobPath ''/depot/b'' digestB]"
    by (simp add: probePaths_collision)
  have h4': "probePaths depotFirstFull (digestA @ digestB)
            = [] @ blobPath ''/depot/a'' digestA
              # [blobPath ''/depot/b'' digestA, blobPath ''/depot/a'' digestB,
                 blobPath ''/depot/b'' digestB]"
    by (simp add: probePaths_collision)
  have p1: "passedOver filesLaterDamaged romCollision (blobPath ''/depot/a'' digestA)"
    and p2: "passedOver filesLaterDamaged romCollision (blobPath ''/depot/b'' digestA)"
    by (simp_all add: passedOver_def trailerMatches_def filesLaterDamaged_def romCollision_def
        blobPaths)
  then have h5: "\<forall>q\<in>set [blobPath ''/depot/a'' digestA, blobPath ''/depot/b'' digestA].
                   passedOver filesLaterDamaged romCollision q"
    by simp
  have h5': "\<forall>q\<in>set []. passedOver filesCrcClash romCollision q"
    by simp
  have h6: "filesLaterDamaged (blobPath ''/depot/a'' digestB)
            = Some (Blob \<lparr>h_Crc = crcK, h_Md5 = md5K, h_Sha1 = digestB\<rparr>)"
    and dm: "filesLaterDamaged (blobPath ''/depot/b'' digestB) = Some Damaged"
    by (simp_all add: filesLaterDamaged_def blobPaths)
  have h6': "filesCrcClash (blobPath ''/depot/a'' digestA)
            = Some (Blob \<lparr>h_Crc = crcK, h_Md5 = md5Other, h_Sha1 = digestA\<rparr>)"
    by (simp add: filesCrcClash_def blobPaths)
  have h7: "trailerMatches romCollision \<lparr>h_Crc = crcK, h_Md5 = md5K, h_Sha1 = digestB\<rparr>"
    and h7': "trailerMatches romCollision \<lparr>h_Crc = crcK, h_Md5 = md5Other, h_Sha1 = digestA\<rparr>"
    by (simp_all add: trailerMatches_def romCollision_def)
  note md5case = OpenRomGZ_disambiguates_by_md5 [OF h1 h2 h3 h4 h5 h6 h7]
  note crccase = OpenRomGZ_disambiguates_by_md5 [OF h1 h2 h3 h4' h5' h6' h7']
  from md5case crccase h1 h2 h3 h4 p1 p2 h6 h7 dm h6' h7' show ?thesis by blast
qed

text \<open>
  Claim C5 as stated fails at \<open>filesCrcClash\<close>: the blob of \<open>digestB\<close> is the only one whose
  trailer MD5 is the MD5 of \<open>romCollision\<close>, yet \<open>OpenRomGZ\<close> returns the blob of \<open>digestA\<close>,
  which is probed first and whose trailer CRC equals the CRC of the rom.
\<close>

theorem OpenRomGZ_crc_match_wins_first:
  "rom_Sha1 romCollision = Some (digestA @ digestB) \<and> rom_Md5 romCollision = Some md5K
   \<and> filesCrcClash (blobPath ''/depot/a'' digestA)
       = Some (Blob \<lparr>h_Crc = crcK, h_Md5 = md5Other, h_Sha1 = digestA\<rparr>)
   \<and> filesCrcClash (blobPath ''/depot/a'' digestB)
       = Some (Blob \<lparr>h_Crc = crcK, h_Md5 = md5K, h_Sha1 = digestB\<rparr>)
   \<and> filesCrcClash (blobPath ''/depot/b'' digestA) = None
   \<and> filesCrcClash (blobPath ''/depot/b'' digestB) = None
   \<and> md5Other \<noteq> md5K
   \<and> OpenRomGZ depotFirstFull filesCrcClash romCollision = Inr (Some (blobPath ''/depot/a'' digestA))
   \<and> blobPath ''/depot/a'' digestA \<noteq> blobPath ''/depot/a'' digestB"
proof -
  have f: "filesCrcClash (blobPath ''/depot/a'' digestA)
             = Some (Blob \<lparr>h_Crc = crcK, h_Md5 = md5Other, h_Sha1 = digestA\<rparr>)"
    "filesCrcClash (blobPath ''/depot/a'' digestB)
             = Some (Blob \<lparr>h_Crc = crcK, h_Md5 = md5K, h_Sha1 = digestB\<rparr>)"
    "filesCrcClash (blobPath ''/depot/b'' digestA) = None"
    "filesCrcClash (blobPath ''/depot/b'' digestB) = None"
    by (simp_all add: filesCrcClash_def blobPaths)
  have sl: "slice (digestA @ digestB) 0 sha1Size = Some digestA"
    by (simp add: slice_def)
  have "openMatchingInRoots filesCrcClash romCollision (EncodeToString digestA)
          (roots depotFirstFull) = Some (Inr (Some (blobPath ''/depot/a'' digestA)))"
    using f(1)
    by (simp add: depotFirstFull_def blobPath_def PathExists_def HashesForGZFile_def
        osOpen_def romCollision_def bytesOf_def)
  then have "openCandidates depotFirstFull filesCrcClash romCollision (digestA @ digestB) 0
             = Inr (Some (blobPath ''/depot/a'' digestA))"
    using sl by (subst openCandidates.simps) simp
  then have "OpenRomGZ depotFirstFull filesCrcClash romCollision
             = Inr (Some (blobPath ''/depot/a'' digestA))"
    by (simp add: OpenRomGZ_def romCollision_def)
  then show ?thesis using f by (simp add: romCollision_def blobPaths)
qed

section \<open>Presence of a blob in the depot\<close>

text \<open>
  Claim C8 describes \<open>SHA1InDepot\<close> as returning a presence flag together with the MD5 and
  CRC of the trailer of the first blob found, which is how \<open>purgeWorker.Process\<close> calls it.
  The function of the depot returns the flag alone: for the blob of \<open>digestB\<close>, stored under
  the first root of \<open>filesDistinct\<close> with a trailer, the result is \<open>true\<close> and nothing else,
  and for a digest with no blob it is \<open>false\<close>.
\<close>

theorem SHA1InDepot_returns_flag_only:
  "filesDistinct (blobPath ''/depot/a'' digestB)
     = Some (Blob \<lparr>h_Crc = crcK, h_Md5 = md5K, h_Sha1 = digestB\<rparr>)
   \<and> SHA1InDepot depotFirstFull filesDistinct (EncodeToString digestB) = Inr True
   \<and> SHA1InDepot depotFirstFull Map.empty (EncodeToString digestB) = Inr False"
proof -
  have f: "filesDistinct (blobPath ''/depot/a'' digestB)
             = Some (Blob \<lparr>h_Crc = crcK, h_Md5 = md5K, h_Sha1 = digestB\<rparr>)"
    by (simp add: filesDistinct_def)
  then have "SHA1InDepot depotFirstFull filesDistinct (EncodeToString digestB) = Inr True"
    by (simp add: SHA1InDepot_def depotFirstFull_def blobPath_def PathExists_def)
  moreover have "SHA1InDepot depotFirstFull Map.empty (EncodeToString digestB) = Inr False"
    by (simp add: SHA1InDepot_def depotFirstFull_def PathExists_def)
  ultimately show ?thesis using f by simp
qed

section \<open>The resume log\<close>

text \<open>
  Claim C7 has the observer write the smallest last-completed path followed by a newline.
  With one worker that completed \<open>/roms/a\<close>, a tick writes the bytes \<open>%s\<close>, a newline and
  \<open>/roms/a\<close>, with no newline after the path: \<open>Fprint\<close> does not interpret the format string.
  With two workers of which only the first completed a path, the array is sorted in place,
  the empty entry of the idle worker comes first and no path is written at all.
\<close>

theorem writeResumeLogEntry_writes_format_string:
  "map_sum id (\<lambda>(ob, comps). (resumeLog ob, comps))
     (loopObserver depotFirstFull 1 [Completed ''/roms/a'' 0, Tick])
     = Inr (''%s'' @ [CHR 0x0A] @ ''/roms/a'', [''/roms/a''])
   \<and> ''%s'' @ [CHR 0x0A] @ ''/roms/a'' \<noteq> ''/roms/a'' @ [CHR 0x0A]
   \<and> map_sum id (\<lambda>(ob, comps). (resumeLog ob, comps))
       (loopObserver depotFirstFull 2 [Completed ''/roms/b'' 0, Tick])
       = Inr (''%s'' @ [CHR 0x0A], [[], ''/roms/b''])"
  by (simp add: loopObserver_def writeResumeLogEntry_def Fprint_def eval_nat_numeral)

section \<open>Union-map membership implies a Dat entry\<close>

lemma containsSha1_False_aligned:
  "containsSha1 s dst j = Some False \<Longrightarrow> j \<le> length dst \<Longrightarrow> (length dst - j) mod sha1Size = 0"
proof (induction s dst j rule: containsSha1.induct)
  case (1 s dst j)
  show ?case
  proof (cases "j < length dst")
    case False
    with "1.prems" show ?thesis by simp
  next
    case True
    from "1.prems"(1) True obtain b where sl: "slice dst j (j + sha1Size) = Some b"
      by (subst (asm) containsSha1.simps) (auto split: option.splits)
    then have le: "j + sha1Size \<le> length dst"
      by (simp add: slice_def split: if_splits)
    from "1.prems"(1) True sl have ne: "s \<noteq> b"
      and rec: "containsSha1 s dst (j + sha1Size) = Some False"
      by (subst (asm) containsSha1.simps, simp split: if_splits)+
    from "1.IH" [OF True sl ne rec le] le show ?thesis
      by presburger
  qed
qed

lemma appendUniqueSha1_one:
  assumes "length v = sha1Size" and "appendUniqueSha1 cur v = Some r"
  shows "set (chunks r) \<subseteq> set (chunks cur) \<union> {v}"
proof -
  have sl: "slice v 0 sha1Size = Some v" using assms(1) by (simp add: slice_def)
  have stop: "appendUniqueLoop d v sha1Size = Some d" for d
    using assms(1) by (subst appendUniqueLoop.simps) simp
  from assms(2) sl assms(1) obtain found where c: "containsSha1 v cur 0 = Some found"
    unfolding appendUniqueSha1_def
    by (subst (asm) appendUniqueLoop.simps) (auto split: option.splits)
  show ?thesis
  proof (cases found)
    case True
    with assms c sl have "r = cur"
      unfolding appendUniqueSha1_def
      by (subst (asm) appendUniqueLoop.simps) (simp add: stop)
    then show ?thesis by auto
  next
    case False
    with assms c sl have r: "r = cur @ v"
      unfolding appendUniqueSha1_def
      by (subst (asm) appendUniqueLoop.simps) (simp add: stop)
    from containsSha1_False_aligned [of v cur 0] c False have "aligned cur"
      by (simp add: aligned_def)
    then have "chunks (cur @ v) = chunks cur @ [v]"
      using chunks_append [of cur v] chunks_single [OF assms(1)] by simp
    with r show ?thesis by auto
  qed
qed

lemma appendUniqueLoop_chunks_subset:
  "aligned dst \<Longrightarrow> i mod sha1Size = 0 \<Longrightarrow> appendUniqueLoop dst src i = Some r \<Longrightarrow>
   aligned r \<and> set (chunks r) \<subseteq> set (chunks dst) \<union> set (chunks (drop i src))"
proof (induction dst src i rule: appendUniqueLoop.induct)
  case (1 dst src i)
  show ?case
  proof (cases "i < length src")
    case False
    with "1.prems" show ?thesis by (subst (asm) appendUniqueLoop.simps) auto
  next
    case True
    from "1.prems"(3) True obtain c where sl: "slice src i (i + sha1Size) = Some c"
      by (subst (asm) appendUniqueLoop.simps) (auto split: option.splits)
    then have le: "i + sha1Size \<le> length src" and c: "c = take sha1Size (drop i src)"
      by (auto simp: slice_def split: if_splits)
    have lc: "length c = sha1Size" using le c by simp
    have nx: "(i + sha1Size) mod sha1Size = 0" using "1.prems"(2) by simp
    have cs: "containsSha1 c dst 0 = Some (c \<in> set (chunks dst))"
      using containsSha1_aligned [OF "1.prems"(1), of 0 c] by simp
    have step: "chunks (drop i src) = c # chunks (drop (i + sha1Size) src)"
      using chunks_drop_step [OF le] c by simp
    let ?d = "if c \<in> set (chunks dst) then dst else dst @ c"
    have al: "aligned ?d" using "1.prems"(1) lc by (simp add: aligned_def)
    have ch: "set (chunks ?d) \<subseteq> set (chunks dst) \<union> {c}"
      using chunks_append [OF "1.prems"(1), of c] chunks_single [OF lc] by auto
    from "1.prems"(3) True sl cs have rec: "appendUniqueLoop ?d src (i + sha1Size) = Some r"
      by (subst (asm) appendUniqueLoop.simps) simp
    from "1.IH" [OF True sl cs al nx rec] ch step show ?thesis by auto
  qed
qed

lemma appendUniqueSha1_chunks_subset:
  "aligned dst \<Longrightarrow> appendUniqueSha1 dst src = Some r \<Longrightarrow>
   aligned r \<and> set (chunks r) \<subseteq> set (chunks dst) \<union> set (chunks src)"
  using appendUniqueLoop_chunks_subset [of dst 0 src r] by (simp add: appendUniqueSha1_def)

lemma closedWrt_mono: "closedWrt S db \<Longrightarrow> S \<subseteq> S' \<Longrightarrow> closedWrt S' db"
  unfolding closedWrt_def by blast

lemma opOk_mono: "opOk S x \<Longrightarrow> S \<subseteq> S' \<Longrightarrow> opOk S' x"
  unfolding opOk_def by (cases x) auto

lemma applyOp_closed:
  assumes "\<forall>k v. m k = Some v \<longrightarrow> set (chunks v) \<subseteq> S" and "opOk S x" and "applyOp m x = Inr m'"
  shows "\<forall>k v. m' k = Some v \<longrightarrow> set (chunks v) \<subseteq> S"
proof (intro allI impI)
  fix k' v'
  assume look: "m' k' = Some v'"
  show "set (chunks v') \<subseteq> S"
  proof (cases x)
    case (OpSet k v)
    with assms(2) have vs: "set (chunks v) \<subseteq> S" by (simp add: opOk_def)
    from assms(3) OpSet have "m' = m(k \<mapsto> v)" by simp
    with look vs assms(1) show ?thesis by (cases "k' = k") auto
  next
    case (OpAppend k v)
    with assms(3) obtain r where r: "appendUniqueSha1 (bytesOf (m k)) v = Some r"
      and m': "m' = m(k \<mapsto> r)"
      by (auto split: option.splits)
    from assms(2) OpAppend have v: "length v = sha1Size" "v \<in> S" by (auto simp: opOk_def)
    have "set (chunks (bytesOf (m k))) \<subseteq> S"
      using assms(1) by (cases "m k") (auto simp: bytesOf_def)
    with appendUniqueSha1_one [OF v(1) r] v(2) have "set (chunks r) \<subseteq> S" by auto
    with look m' assms(1) show ?thesis by (cases "k' = k") auto
  next
    case (OpDelete k)
    with assms(3) have "m' = m(k := None)" by simp
    with look assms(1) show ?thesis by (cases "k' = k") auto
  qed
qed

lemma applyOps_closed:
  "\<forall>k v. m k = Some v \<longrightarrow> set (chunks v) \<subseteq> S \<Longrightarrow> \<forall>x\<in>set ops. opOk S x \<Longrightarrow>
   applyOps m ops = Inr m' \<Longrightarrow> \<forall>k v. m' k = Some v \<longrightarrow> set (chunks v) \<subseteq> S"
proof (induction ops arbitrary: m)
  case Nil
  then show ?case by simp
next
  case (Cons x xs)
  from Cons.prems(3) obtain m1 where a: "applyOp m x = Inr m1" and b: "applyOps m1 xs = Inr m'"
    by (auto split: sum.splits)
  from Cons.prems(2) have x: "opOk S x" and xs: "\<forall>x\<in>set xs. opOk S x" by simp_all
  from applyOp_closed [of m S x m1, OF Cons.prems(1) x a]
  have "\<forall>k v. m1 k = Some v \<longrightarrow> set (chunks v) \<subseteq> S" .
  from Cons.IH [of m1, OF this xs b] show ?case .
qed

lemma kvWriteBatch_closed:
  assumes "closedWrt S db" and "\<forall>x\<in>set (kb_ops b). opOk S x" and "kvWriteBatch db b = Inr db'"
  shows "closedWrt S db'"
proof -
  from assms(3) obtain m where m: "applyOps (kv_data db) (kb_ops b) = Inr m"
    and db': "db' = db\<lparr>kv_data := m\<rparr>"
    by (auto simp: kvWriteBatch_def split: sum.splits)
  from assms(1) have "\<forall>k v. kv_data db k = Some v \<longrightarrow> set (chunks v) \<subseteq> S"
    by (simp add: closedWrt_def)
  from applyOps_closed [of "kv_data db" S "kb_ops b" m, OF this assms(2) m] db' show ?thesis
    by (simp add: closedWrt_def)
qed

lemma applyOps_sets:
  "\<forall>x\<in>set ops. isSet x \<Longrightarrow> applyOps m ops = Inr m' \<Longrightarrow> dom m' = dom m \<union> setKeys ops"
proof (induction ops arbitrary: m)
  case Nil
  then show ?case by (simp add: setKeys_def)
next
  case (Cons x xs)
  from Cons.prems(1) obtain k v where x: "x = OpSet k v"
    by (cases x) (auto simp: isSet_def)
  with Cons.prems(2) have "applyOps (m(k \<mapsto> v)) xs = Inr m'" by simp
  moreover from Cons.prems(1) have "\<forall>x\<in>set xs. isSet x" by simp
  ultimately have "dom m' = dom (m(k \<mapsto> v)) \<union> setKeys xs"
    using Cons.IH [of "m(k \<mapsto> v)"] by blast
  then have "dom m' = insert k (dom m) \<union> setKeys xs" by simp
  moreover have "setKeys (x # xs) = insert k (setKeys xs)"
    using x by (auto simp: setKeys_def)
  ultimately show ?case by simp
qed

lemma kvWriteBatch_sets:
  assumes "\<forall>x\<in>set (kb_ops b). isSet x" and "kvWriteBatch db b = Inr db'"
  shows "dom (kv_data db') = dom (kv_data db) \<union> setKeys (kb_ops b)"
proof -
  from assms(2) obtain m where m: "applyOps (kv_data db) (kb_ops b) = Inr m"
    and db': "db' = db\<lparr>kv_data := m\<rparr>"
    by (auto simp: kvWriteBatch_def split: sum.splits)
  from applyOps_sets [of "kb_ops b" "kv_data db" m, OF assms(1) m] db' show ?thesis by simp
qed

lemma Flush_datsClosed:
  assumes inv: "datsClosed kvdb" and ok: "batchOk (dom (kv_data (datsDB kvdb))) kvb"
  shows "datsClosed (fst (Flush kvdb kvb))"
proof (cases "kvb_size kvb = 0")
  case True
  then show ?thesis using inv by (simp add: Flush_def)
next
  case nz: False
  let ?S = "dom (kv_data (datsDB kvdb)) \<union> setKeys (kb_ops (datsBatch kvb))"
  from ok have sets: "\<forall>x\<in>set (kb_ops (datsBatch kvb)). isSet x"
    and oc: "\<forall>x\<in>set (kb_ops (crcBatch kvb)). opOk ?S x"
    and om: "\<forall>x\<in>set (kb_ops (md5Batch kvb)). opOk ?S x"
    and os: "\<forall>x\<in>set (kb_ops (sha1Batch kvb)). opOk ?S x"
    by (auto simp: batchOk_def uops_def)
  from inv have c0: "closedWrt ?S (crcDB kvdb)" and m0: "closedWrt ?S (md5DB kvdb)"
    and s0: "closedWrt ?S (sha1DB kvdb)"
    by (auto simp: datsClosed_def intro: closedWrt_mono)
  show ?thesis
  proof (cases "kvWriteBatch (datsDB kvdb) (datsBatch kvb)")
    case (Inl e)
    then show ?thesis using nz inv by (simp add: Flush_def)
  next
    case d1: (Inr d1)
    from kvWriteBatch_sets [OF sets d1] have dom1: "dom (kv_data d1) = ?S" .
    show ?thesis
    proof (cases "kvWriteBatch (crcDB kvdb) (crcBatch kvb)")
      case (Inl e)
      then show ?thesis using nz d1 dom1 c0 m0 s0
        by (simp add: Flush_def datsClosed_def)
    next
      case d2: (Inr d2)
      from kvWriteBatch_closed [OF c0 oc d2] have c1: "closedWrt ?S d2" .
      show ?thesis
      proof (cases "kvWriteBatch (md5DB kvdb) (md5Batch kvb)")
        case (Inl e)
        then show ?thesis using nz d1 d2 dom1 c1 m0 s0
          by (simp add: Flush_def datsClosed_def)
      next
        case d3: (Inr d3)
        from kvWriteBatch_closed [OF m0 om d3] have m1: "closedWrt ?S d3" .
        show ?thesis
        proof (cases "kvWriteBatch (sha1DB kvdb) (sha1Batch kvb)")
          case (Inl e)
          then show ?thesis using nz d1 d2 d3 dom1 c1 m1 s0
            by (simp add: Flush_def datsClosed_def)
        next
          case d4: (Inr d4)
          from kvWriteBatch_closed [OF s0 os d4] have s1: "closedWrt ?S d4" .
          show ?thesis using nz d1 d2 d3 d4 dom1 c1 m1 s1
            by (simp add: Flush_def datsClosed_def Let_def split: sum.splits)
        qed
      qed
    qed
  qed
qed

lemma extends_refl: "extends v kvb kvb"
  by (simp add: extends_def)

lemma extends_trans: "extends v a b \<Longrightarrow> extends v b c \<Longrightarrow> extends v a c"
  unfolding extends_def by auto

lemma appendSha1_extends: "appendSha1 kvb k v = Inr kvb' \<Longrightarrow> extends v kvb kvb'"
  by (auto simp: appendSha1_def batchAppend_def extends_def uops_def split: sum.splits if_splits)

lemma appendMd5_extends: "appendMd5 kvb k v = Inr kvb' \<Longrightarrow> extends v kvb kvb'"
  by (auto simp: appendMd5_def batchAppend_def extends_def uops_def split: sum.splits if_splits)

lemma appendCrc_extends: "appendCrc kvb k v = Inr kvb' \<Longrightarrow> extends v kvb kvb'"
  by (auto simp: appendCrc_def batchAppend_def extends_def uops_def split: sum.splits if_splits)

lemma appendMd5Sha1_extends: "appendMd5Sha1 kvb k s = Inr kvb' \<Longrightarrow> extends v kvb kvb'"
  by (auto simp: appendMd5Sha1_def batchAppend_def extends_def uops_def
      split: sum.splits if_splits)

lemma appendCrcSha1_extends: "appendCrcSha1 kvb k s = Inr kvb' \<Longrightarrow> extends v kvb kvb'"
  by (auto simp: appendCrcSha1_def batchAppend_def extends_def uops_def
      split: sum.splits if_splits)

lemma indexDatRom_extends:
  assumes "indexDatRom kvb sb r = Inr kvb'"
  shows "extends sb kvb kvb'"
proof -
  from assms obtain kvb1 kvb2 where
    s1: "(case rom_Sha1 r of None \<Rightarrow> Inr kvb | Some s \<Rightarrow> appendSha1 kvb s sb) = Inr kvb1" and
    s2: "(case rom_Md5 r of
            None \<Rightarrow> Inr kvb1
          | Some m \<Rightarrow>
              bindE (appendMd5 kvb1 m sb) (\<lambda>k.
                case rom_Sha1 r of None \<Rightarrow> Inr k | Some s \<Rightarrow> appendMd5Sha1 k m s)) = Inr kvb2" and
    s3: "(case rom_Crc r of
            None \<Rightarrow> Inr kvb2
          | Some c \<Rightarrow>
              bindE (appendCrc kvb2 c sb) (\<lambda>k.
                case rom_Sha1 r of None \<Rightarrow> Inr k | Some s \<Rightarrow> appendCrcSha1 k c s)) = Inr kvb'"
    unfolding indexDatRom_def bindE_def by (auto split: sum.splits)
  from s1 have e1: "extends sb kvb kvb1"
    by (cases "rom_Sha1 r") (auto intro: extends_refl appendSha1_extends)
  from s2 have e2: "extends sb kvb1 kvb2"
    unfolding bindE_def
    by (cases "rom_Md5 r"; cases "rom_Sha1 r")
       (auto split: sum.splits
          intro: extends_refl appendMd5_extends extends_trans [OF appendMd5_extends appendMd5Sha1_extends])
  from s3 have e3: "extends sb kvb2 kvb'"
    unfolding bindE_def
    by (cases "rom_Crc r"; cases "rom_Sha1 r")
       (auto split: sum.splits
          intro: extends_refl appendCrc_extends extends_trans [OF appendCrc_extends appendCrcSha1_extends])
  from e1 e2 e3 show ?thesis by (blast intro: extends_trans)
qed

lemma indexDatRoms_extends: "indexDatRoms kvb sb rs = Inr kvb' \<Longrightarrow> extends sb kvb kvb'"
proof (induction rs arbitrary: kvb)
  case Nil
  then show ?case by (simp add: extends_refl)
next
  case (Cons r rs)
  from Cons.prems obtain k1 where a: "indexDatRom kvb sb r = Inr k1"
    and b: "indexDatRoms k1 sb rs = Inr kvb'"
    by (auto split: sum.splits)
  from indexDatRom_extends [OF a] Cons.IH [OF b] show ?case by (rule extends_trans)
qed

lemma indexDatGames_extends: "indexDatGames kvb sb gs = Inr kvb' \<Longrightarrow> extends sb kvb kvb'"
proof (induction gs arbitrary: kvb)
  case Nil
  then show ?case by (simp add: extends_refl)
next
  case (Cons g gs)
  from Cons.prems obtain k1 where a: "indexDatRoms kvb sb (game_Roms g) = Inr k1"
    and b: "indexDatGames k1 sb gs = Inr kvb'"
    by (auto split: sum.splits)
  from indexDatRoms_extends [OF a] Cons.IH [OF b] show ?case by (rule extends_trans)
qed

lemma batchOk_extends:
  assumes "batchOk D kvb" and "extends v kvb kvb'" and "length v = sha1Size"
    and "v \<in> D \<union> setKeys (kb_ops (datsBatch kvb))"
  shows "batchOk D kvb'"
  using assms unfolding batchOk_def extends_def by (auto simp: opOk_def)

lemma batchOk_same:
  assumes "batchOk D kvb" and "datsBatch kvb' = datsBatch kvb" and "uops kvb' = uops kvb"
  shows "batchOk D kvb'"
  using assms unfolding batchOk_def by simp

lemma setKeys_snoc: "setKeys (ops @ [OpSet k b]) = insert k (setKeys ops)"
  by (auto simp: setKeys_def)

lemma kvBatch_IndexDat_ok:
  assumes ok: "batchOk D kvb" and len: "length sb = sha1Size"
    and run: "kvBatch_IndexDat cd kvdb kvb dat (Some sb) = Inr kvb'"
  shows "batchOk D kvb'"
proof -
  let ?dat = "dat\<lparr>dat_Generation := generation kvdb\<rparr>"
  from run obtain buf where enc: "gobEncode cd ?dat = Some buf"
    by (auto simp: kvBatch_IndexDat_def Let_def split: option.splits)
  let ?k1 = "kvb\<lparr>datsBatch := batchSetIgnoringError (datsBatch kvb) sb buf,
                  kvb_size := kvb_size kvb + of_nat (sha1Size + length buf)\<rparr>"
  from ok len have db: "batchSetIgnoringError (datsBatch kvb) sb buf
                        = (datsBatch kvb)\<lparr>kb_ops := kb_ops (datsBatch kvb) @ [OpSet sb buf]\<rparr>"
    by (simp add: batchOk_def batchSetIgnoringError_def batchSet_def)
  have ok1: "batchOk D ?k1"
    using ok unfolding batchOk_def
    by (auto simp: db setKeys_snoc isSet_def uops_def intro: opOk_mono)
  have cov: "sb \<in> D \<union> setKeys (kb_ops (datsBatch ?k1))"
    by (simp add: db setKeys_snoc)
  from run enc have "kvb' = ?k1 \<or> indexDatGames ?k1 sb (dat_Games ?dat) = Inr kvb'"
    by (auto simp: kvBatch_IndexDat_def Let_def split: sum.splits if_splits)
  then show ?thesis
  proof
    assume "kvb' = ?k1"
    with ok1 show ?thesis by simp
  next
    assume "indexDatGames ?k1 sb (dat_Games ?dat) = Inr kvb'"
    from batchOk_extends [OF ok1 indexDatGames_extends [OF this] len cov] show ?thesis .
  qed
qed

lemma unionInto_closed:
  assumes "aligned acc" and "set (chunks acc) \<subseteq> S" and "closedWrt S db"
    and "unionInto acc db key = Inr r"
  shows "aligned r \<and> set (chunks r) \<subseteq> S"
proof (cases key)
  case None
  with assms show ?thesis by (simp add: unionInto_def)
next
  case (Some k)
  with assms(4) obtain ss where g: "kvGet db k = Inr ss"
    by (auto simp: unionInto_def split: sum.splits)
  have sub: "set (chunks (bytesOf ss)) \<subseteq> S"
  proof (cases ss)
    case None
    then show ?thesis by (simp add: bytesOf_def)
  next
    case (Some v)
    with g have "kv_data db k = Some v" by (auto simp: kvGet_def split: if_splits)
    with assms(3) Some show ?thesis by (simp add: closedWrt_def bytesOf_def)
  qed
  show ?thesis
  proof (cases "length (bytesOf ss) > 0")
    case False
    with assms Some g show ?thesis by (simp add: unionInto_def)
  next
    case True
    with assms(4) Some g have "appendUniqueSha1 acc (bytesOf ss) = Some r"
      by (auto simp: unionInto_def split: option.splits)
    from appendUniqueSha1_chunks_subset [OF assms(1) this] assms(2) sub show ?thesis by auto
  qed
qed

lemma kvBatch_IndexRom_ok:
  assumes inv: "datsClosed kvdb" and ok: "batchOk (dom (kv_data (datsDB kvdb))) kvb"
    and sum: "\<forall>x. length (sha1Sum cd x) = sha1Size"
    and run: "kvBatch_IndexRom cd kvdb kvb rom = Inr kvb'"
  shows "batchOk (dom (kv_data (datsDB kvdb))) kvb'"
proof -
  let ?D = "dom (kv_data (datsDB kvdb))"
  from run obtain kvb1 dats where
    s1: "(case rom_Sha1 rom of
            None \<Rightarrow> Inr kvb
          | Some s \<Rightarrow>
              bindE (case rom_Crc rom of None \<Rightarrow> Inr kvb | Some c \<Rightarrow> appendCrcSha1 kvb c s) (\<lambda>k.
                case rom_Md5 rom of None \<Rightarrow> Inr k | Some m \<Rightarrow> appendMd5Sha1 k m s)) = Inr kvb1"
    and s2: "DatsForRom cd kvdb rom = Inr dats"
    unfolding kvBatch_IndexRom_def bindE_def by (auto split: sum.splits)
  from s1 have "extends [] kvb kvb1"
    unfolding bindE_def
    by (cases "rom_Sha1 rom"; cases "rom_Crc rom"; cases "rom_Md5 rom")
       (auto split: sum.splits
          intro: extends_refl appendCrcSha1_extends appendMd5Sha1_extends
            extends_trans [OF appendCrcSha1_extends appendMd5Sha1_extends])
  moreover have "extends [] kvb kvb1 \<Longrightarrow> datsBatch kvb1 = datsBatch kvb"
    by (simp add: extends_def)
  moreover from s1 have "uops kvb1 = uops kvb"
    unfolding bindE_def
    by (cases "rom_Sha1 rom"; cases "rom_Crc rom"; cases "rom_Md5 rom")
       (auto simp: appendCrcSha1_def appendMd5Sha1_def batchAppend_def uops_def
          split: sum.splits if_splits)
  ultimately have ok1: "batchOk ?D kvb1"
    using batchOk_same [OF ok] by simp
  show ?thesis
  proof (cases "length dats > 0")
    case False
    with run s1 s2 obtain buf where
      "kvBatch_IndexDat cd kvdb kvb1 (artificialDat kvdb rom) (Some (sha1Sum cd buf)) = Inr kvb'"
      unfolding kvBatch_IndexRom_def bindE_def
      by (auto simp: Let_def split: sum.splits option.splits)
    from kvBatch_IndexDat_ok [OF ok1 _ this] sum show ?thesis by simp
  next
    case True
    with run s1 s2 obtain ssd where
      g: "kvGet (sha1DB kvdb) (bytesOf (rom_Sha1 rom)) = Inr ssd"
      unfolding kvBatch_IndexRom_def bindE_def
      by (auto split: sum.splits)
    show ?thesis
    proof (cases "length (bytesOf ssd) = 0")
      case False
      with run s1 s2 g True have "kvb' = kvb1"
        unfolding kvBatch_IndexRom_def bindE_def by (auto split: sum.splits)
      with ok1 show ?thesis by simp
    next
      case empty: True
      with run s1 s2 g True obtain sha1s1 sha1s where
        u1: "unionInto [] (md5DB kvdb) (rom_Md5 rom) = Inr sha1s1" and
        u2: "unionInto sha1s1 (crcDB kvdb) (rom_Crc rom) = Inr sha1s" and
        res: "kvb' = (if length sha1s > 0
                      then kvb1\<lparr>sha1Batch :=
                             batchSetIgnoringError (sha1Batch kvb1) (bytesOf (rom_Sha1 rom)) sha1s\<rparr>
                      else kvb1)"
        unfolding kvBatch_IndexRom_def bindE_def by (auto split: sum.splits if_splits)
      from inv have cm: "closedWrt ?D (md5DB kvdb)" and cc: "closedWrt ?D (crcDB kvdb)"
        by (simp_all add: datsClosed_def)
      from unionInto_closed [OF _ _ cm u1] have a1: "aligned sha1s1 \<and> set (chunks sha1s1) \<subseteq> ?D"
        by simp
      from unionInto_closed [OF _ _ cc u2] a1 have a2: "set (chunks sha1s) \<subseteq> ?D"
        by simp
      show ?thesis
      proof (cases "length sha1s > 0")
        case False
        with res ok1 show ?thesis by simp
      next
        case True
        let ?key = "bytesOf (rom_Sha1 rom)"
        have "batchSetIgnoringError (sha1Batch kvb1) ?key sha1s = sha1Batch kvb1
              \<or> batchSetIgnoringError (sha1Batch kvb1) ?key sha1s
                 = (sha1Batch kvb1)\<lparr>kb_ops := kb_ops (sha1Batch kvb1) @ [OpSet ?key sha1s]\<rparr>"
          by (simp add: batchSetIgnoringError_def batchSet_def)
        then show ?thesis
        proof
          assume "batchSetIgnoringError (sha1Batch kvb1) ?key sha1s = sha1Batch kvb1"
          with res True ok1 show ?thesis by (simp add: batchOk_def uops_def)
        next
          assume "batchSetIgnoringError (sha1Batch kvb1) ?key sha1s
                  = (sha1Batch kvb1)\<lparr>kb_ops := kb_ops (sha1Batch kvb1) @ [OpSet ?key sha1s]\<rparr>"
          with res True ok1 a2 show ?thesis
            by (auto simp: batchOk_def uops_def opOk_def)
        qed
      qed
    qed
  qed
qed

lemma Flush_keySize: "kv_keySize (datsDB (fst (Flush kvdb kvb))) = kv_keySize (datsDB kvdb)"
  by (auto simp: Flush_def Let_def kvWriteBatch_def split: sum.splits)

lemma fst_Close: "fst (Close kvdb kvb) = fst (Flush kvdb kvb)"
  by (simp add: Close_def split: prod.splits)

lemma StartBatch_ok: "kv_keySize (datsDB kvdb) = sha1Size \<Longrightarrow> batchOk D (StartBatch kvdb)"
  by (simp add: batchOk_def StartBatch_def kvStartBatch_def uops_def)

lemma kvStore_IndexRom_closed:
  assumes "datsClosed kvdb" and "kv_keySize (datsDB kvdb) = sha1Size"
    and "\<forall>x. length (sha1Sum cd x) = sha1Size"
  shows "datsClosed (fst (kvStore_IndexRom cd kvdb rom))
         \<and> kv_keySize (datsDB (fst (kvStore_IndexRom cd kvdb rom))) = sha1Size"
proof (cases "kvBatch_IndexRom cd kvdb (StartBatch kvdb) rom")
  case (Inl e)
  with assms show ?thesis by (simp add: kvStore_IndexRom_def)
next
  case (Inr batch)
  from kvBatch_IndexRom_ok [OF assms(1) StartBatch_ok [OF assms(2)] assms(3) Inr]
  have "batchOk (dom (kv_data (datsDB kvdb))) batch" .
  from Flush_datsClosed [OF assms(1) this] Flush_keySize [of kvdb batch] assms(2) Inr
  show ?thesis by (simp add: kvStore_IndexRom_def fst_Close)
qed

lemma kvStore_IndexDat_closed:
  assumes "datsClosed kvdb" and "kv_keySize (datsDB kvdb) = sha1Size"
    and "\<forall>sb. sha1Bytes = Some sb \<longrightarrow> length sb = sha1Size"
  shows "datsClosed (fst (kvStore_IndexDat cd kvdb dat sha1Bytes))
         \<and> kv_keySize (datsDB (fst (kvStore_IndexDat cd kvdb dat sha1Bytes))) = sha1Size"
proof (cases "kvBatch_IndexDat cd kvdb (StartBatch kvdb) dat sha1Bytes")
  case (Inl e)
  with assms show ?thesis by (simp add: kvStore_IndexDat_def)
next
  case (Inr batch)
  then obtain sb where sb: "sha1Bytes = Some sb"
    by (cases sha1Bytes) (auto simp: kvBatch_IndexDat_def)
  with assms(3) have len: "length sb = sha1Size" by simp
  from kvBatch_IndexDat_ok [OF StartBatch_ok [OF assms(2)] len] Inr sb
  have "batchOk (dom (kv_data (datsDB kvdb))) batch" by simp
  from Flush_datsClosed [OF assms(1) this] Flush_keySize [of kvdb batch] assms(2) Inr
  show ?thesis by (simp add: kvStore_IndexDat_def fst_Close)
qed

lemma reachable_closed:
  assumes "\<forall>x. length (sha1Sum cd x) = sha1Size" and "reachable cd kvdb"
  shows "datsClosed kvdb \<and> kv_keySize (datsDB kvdb) = sha1Size"
  using assms(2)
proof (induction rule: reachable.induct)
  case (empty g)
  show ?case by (simp add: datsClosed_def closedWrt_def)
next
  case (indexRom kvdb rom)
  then show ?case using kvStore_IndexRom_closed [OF _ _ assms(1)] by simp
next
  case (indexDat kvdb sha1Bytes dat)
  then show ?case using kvStore_IndexDat_closed by simp
next
  case (orphanDats kvdb)
  then show ?case by (simp add: datsClosed_def)
qed

text \<open>
  Claim C3. In every index state that arises from empty stores through \<open>IndexRom\<close>,
  \<open>IndexDat\<close> (with a 20-byte Dat digest) and \<open>OrphanDats\<close>, in particular after every
  completed index operation and its flush, each 20-byte digest \<open>c\<close> inside a value of the
  union maps \<open>crc\<close>, \<open>md5\<close> and \<open>sha1\<close> is a key of the \<open>dats\<close> map. The digest function is
  taken to return 20 bytes, as SHA1 does.
\<close>

theorem union_membership_implies_dat_entry:
  assumes "\<forall>x. length (sha1Sum cd x) = sha1Size" and "reachable cd kvdb"
    and "kv_data (crcDB kvdb) k = Some v \<or> kv_data (md5DB kvdb) k = Some v
         \<or> kv_data (sha1DB kvdb) k = Some v"
    and "c \<in> set (chunks v)"
  shows "\<exists>dBytes. kv_data (datsDB kvdb) c = Some dBytes"
proof -
  from reachable_closed [OF assms(1,2)] have "datsClosed kvdb" by simp
  with assms(3,4) have "c \<in> dom (kv_data (datsDB kvdb))"
    unfolding datsClosed_def closedWrt_def by blast
  then show ?thesis by auto
qed

lemma appendUniqueSha1_first:
  assumes "length v = sha1Size"
  shows "appendUniqueSha1 [] v = Some v"
proof -
  have "aligned v" using assms by (simp add: aligned_def)
  from appendUniqueLoop_aligned [OF _ this, of "[]" 0] chunks_single [OF assms]
  show ?thesis by (simp add: appendUniqueSha1_def)
qed

lemma IndexDat_datX:
  "kvStore_IndexDat tableCodec emptyIndex datX (Some digestA) = (indexAfterDatX, None)"
proof -
  have enc: "gobEncode tableCodec (datX\<lparr>dat_Generation := 0\<rparr>) = Some [1]"
    by (simp add: tableCodec_def datX_def)
  have art: "\<not> dat_Artificial (datX\<lparr>dat_Generation := 0\<rparr>)"
    and games: "dat_Games (datX\<lparr>dat_Generation := 0\<rparr>)
                = [\<lparr>game_Name = ''g'', game_Description = [], game_Roms = [romT]\<rparr>]"
    by (simp_all add: datX_def)
  show ?thesis
    unfolding kvStore_IndexDat_def kvBatch_IndexDat_def
    by (simp add: emptyIndex_def emptyKV_def indexAfterDatX_def StartBatch_def kvStartBatch_def
        enc art games kvExists_def batchSetIgnoringError_def batchSet_def indexDatRom_def
        bindE_def romT_def appendSha1_def appendMd5_def appendCrc_def appendMd5Sha1_def
        appendCrcSha1_def batchAppend_def Close_def Flush_def kvWriteBatch_def batchClear_def
        bytesOf_def appendUniqueSha1_first)
qed

text \<open>
  The theorem at \<open>indexAfterDatX\<close>, the empty index after \<open>IndexDat\<close> of \<open>datX\<close>: the MD5 of
  \<open>romT\<close> leads to the digest \<open>digestA\<close>, which is a key of the \<open>dats\<close> map.
\<close>

theorem union_membership_implies_dat_entry_witness:
  "(\<forall>x. length (sha1Sum tableCodec x) = sha1Size) \<and> reachable tableCodec indexAfterDatX
   \<and> kv_data (md5DB indexAfterDatX) md5K = Some digestA \<and> digestA \<in> set (chunks digestA)
   \<and> (\<exists>dBytes. kv_data (datsDB indexAfterDatX) digestA = Some dBytes)"
proof -
  have s: "\<forall>x. length (sha1Sum tableCodec x) = sha1Size"
    by (simp add: tableCodec_def)
  have "reachable tableCodec emptyIndex"
    unfolding emptyIndex_def emptyKV_def by (rule reachable.empty)
  from reachable.indexDat [OF this, of "Some digestA" datX]
  have r: "reachable tableCodec indexAfterDatX"
    by (simp add: IndexDat_datX)
  have m: "kv_data (crcDB indexAfterDatX) md5K = Some digestA
           \<or> kv_data (md5DB indexAfterDatX) md5K = Some digestA
           \<or> kv_data (sha1DB indexAfterDatX) md5K = Some digestA"
    by (simp add: indexAfterDatX_def)
  have c: "digestA \<in> set (chunks digestA)" by simp
  from union_membership_implies_dat_entry [OF s r m c] s r c show ?thesis
    by (simp add: indexAfterDatX_def)
qed

section \<open>The only-needed filter of the archive worker\<close>

text \<open>
  Claim C6. With \<open>only_needed\<close> set, when the source has been read and hashed and
  \<open>DatsForRom\<close> returns Dats that are all artificial (or none), \<open>archive\<close> returns 0 with no
  error, and the index, the depot (roots, sizes, caps, cursor) and the files of the depot
  are what they were: nothing was indexed, reserved or written. The only state that differs
  is the trailer buffer of the worker, filled with the MD5 and CRC before the filter runs.
\<close>

theorem archive_only_needed_skips:
  assumes "ro = Inr r" and "\<not> r_readFails r" and "\<not> r_closeFails r"
    and "md5Size \<le> length (md5crcBuffer s)"
    and "DatsForRom cd (a_index s) (hashedRom (hashesOf tls (r_data r)) name path sz) = Inr dats"
    and "\<forall>dat\<in>set dats. dat_Artificial dat"
  shows "snd (archive cd tls True s ro name path sz) = Inr 0
         \<and> a_index (fst (archive cd tls True s ro name path sz)) = a_index s
         \<and> a_depot (fst (archive cd tls True s ro name path sz)) = a_depot s
         \<and> a_files (fst (archive cd tls True s ro name path sz)) = a_files s
         \<and> fst (archive cd tls True s ro name path sz)
             = s\<lparr>md5crcBuffer :=
                    copyInto (take md5Size (md5crcBuffer s)) (h_Md5 (hashesOf tls (r_data r)))
                      @ copyInto (drop md5Size (md5crcBuffer s)) (h_Crc (hashesOf tls (r_data r)))\<rparr>"
proof -
  have sl: "slice (md5crcBuffer s) 0 md5Size = Some (take md5Size (md5crcBuffer s))"
    using assms(4) by (simp add: slice_def)
  have no: "\<not> list_ex (\<lambda>dat. \<not> dat_Artificial dat) dats"
    using assms(6) by (simp add: list_ex_iff)
  show ?thesis
    using assms(1,2,3,5) sl no by (simp add: archive_def Let_def)
qed

lemma hashedRom_romT: "hashedRom (hashesOf toolsT (r_data readerT)) ''r.bin'' ''/in/r.bin'' 12 = romT"
  by (simp add: hashedRom_def toolsT_def romT_def copyInto_def crcK_def md5K_def sha1K_def)

lemma tiersOk_indexArtificial: "tiersOk indexArtificial romT"
  by (simp add: tiersOk_def tierOk_def indexArtificial_def emptyIndex_def emptyKV_def romT_def)

lemma DatsForRom_indexArtificial: "DatsForRom tableCodec indexArtificial romT = Inr [datArt]"
proof -
  have tv: "spec_tierValue indexArtificial romT = Some digestA"
    by (simp add: spec_tierValue_def spec_tier_def indexArtificial_def emptyIndex_def
        emptyKV_def romT_def)
  have g: "GetDat tableCodec indexArtificial digestA = Inr (Some datArt)"
    by (simp add: GetDat_def kvGet_def indexArtificial_def emptyIndex_def tableCodec_def)
  have "datsLoop tableCodec indexArtificial digestA 0 [] = Inr [datArt]"
    using datsLoop_chunks [of digestA 0 tableCodec indexArtificial "[]"] g by simp
  with DatsForRom_tiers [OF tiersOk_indexArtificial, of tableCodec] tv show ?thesis by simp
qed

text \<open>
  The theorem at \<open>stateArtificial\<close>: the only Dat of the hashed rom is the artificial
  \<open>datArt\<close>, and the ingest with \<open>only_needed\<close> returns 0 and leaves index, depot and files
  alone.
\<close>

theorem archive_only_needed_skips_witness:
  "\<not> r_readFails readerT \<and> \<not> r_closeFails readerT
   \<and> md5Size \<le> length (md5crcBuffer stateArtificial)
   \<and> DatsForRom tableCodec (a_index stateArtificial)
        (hashedRom (hashesOf toolsT (r_data readerT)) ''r.bin'' ''/in/r.bin'' 12) = Inr [datArt]
   \<and> dat_Artificial datArt
   \<and> snd (archive tableCodec toolsT True stateArtificial (Inr readerT) ''r.bin'' ''/in/r.bin'' 12)
       = Inr 0
   \<and> a_index (fst (archive tableCodec toolsT True stateArtificial (Inr readerT)
         ''r.bin'' ''/in/r.bin'' 12)) = indexArtificial
   \<and> a_depot (fst (archive tableCodec toolsT True stateArtificial (Inr readerT)
         ''r.bin'' ''/in/r.bin'' 12)) = depotFirstFull
   \<and> a_files (fst (archive tableCodec toolsT True stateArtificial (Inr readerT)
         ''r.bin'' ''/in/r.bin'' 12)) = Map.empty"
proof -
  have h2: "\<not> r_readFails readerT" and h3: "\<not> r_closeFails readerT"
    by (simp_all add: readerT_def)
  have h4: "md5Size \<le> length (md5crcBuffer stateArtificial)"
    by (simp add: stateArtificial_def)
  have h5: "DatsForRom tableCodec (a_index stateArtificial)
              (hashedRom (hashesOf toolsT (r_data readerT)) ''r.bin'' ''/in/r.bin'' 12)
            = Inr [datArt]"
    by (simp add: hashedRom_romT DatsForRom_indexArtificial stateArtificial_def)
  have art: "dat_Artificial datArt" by (simp add: datArt_def)
  then have h6: "\<forall>dat\<in>set [datArt]. dat_Artificial dat" by simp
  from archive_only_needed_skips [OF refl h2 h3 h4 h5 h6] h2 h3 h4 h5 art
  show ?thesis by (simp add: stateArtificial_def)
qed

text \<open>
  For contrast, the same ingest without \<open>only_needed\<close> stores the payload: the index gains
  the links from the CRC and the MD5 to the SHA1 of the rom, the second root is reserved and
  adjusted to the 3 bytes written, and the blob appears under that root.
\<close>

lemma archive_without_filter_stores:
  "archive tableCodec toolsT False stateArtificial (Inr readerT) ''r.bin'' ''/in/r.bin'' 12
   = (\<lparr>a_index = indexArtificial
          \<lparr>crcsha1DB := \<lparr>kv_keySize = keySizeCrc, kv_data = [crcK \<mapsto> sha1K]\<rparr>,
           md5sha1DB := \<lparr>kv_keySize = keySizeMd5, kv_data = [md5K \<mapsto> sha1K]\<rparr>\<rparr>,
       a_depot = depotFirstFull\<lparr>sizes := [10, 8]\<rparr>,
       a_files = [blobPath ''/depot/b'' sha1K \<mapsto> Blob \<lparr>h_Crc = crcK, h_Md5 = md5K, h_Sha1 = []\<rparr>],
       md5crcBuffer = md5K @ crcK\<rparr>, Inr 3)"
proof -
  have buf: "copyInto (take md5Size (replicate 20 (0 :: byte))) md5K
               @ copyInto (drop md5Size (replicate 20 (0 :: byte))) crcK = md5K @ crcK"
    by (simp add: copyInto_def md5K_def crcK_def)
  have r: "rom_Sha1 romT = Some sha1K" "rom_Md5 romT = Some md5K" "rom_Crc romT = Some crcK"
    by (simp_all add: romT_def)
  have d: "datsDB indexArtificial = \<lparr>kv_keySize = keySizeSha1, kv_data = [digestA \<mapsto> [3]]\<rparr>"
    "sha1DB indexArtificial = \<lparr>kv_keySize = keySizeSha1, kv_data = [sha1K \<mapsto> digestA]\<rparr>"
    "crcDB indexArtificial = emptyKV keySizeCrc" "md5DB indexArtificial = emptyKV keySizeMd5"
    "crcsha1DB indexArtificial = emptyKV keySizeCrc"
    "md5sha1DB indexArtificial = emptyKV keySizeMd5"
    by (simp_all add: indexArtificial_def emptyIndex_def)
  have ix: "kvStore_IndexRom tableCodec indexArtificial romT
            = (indexArtificial
                 \<lparr>crcsha1DB := \<lparr>kv_keySize = keySizeCrc, kv_data = [crcK \<mapsto> sha1K]\<rparr>,
                  md5sha1DB := \<lparr>kv_keySize = keySizeMd5, kv_data = [md5K \<mapsto> sha1K]\<rparr>\<rparr>, None)"
    unfolding kvStore_IndexRom_def kvBatch_IndexRom_def
    by (simp add: DatsForRom_indexArtificial bindE_def r d
        emptyKV_def StartBatch_def kvStartBatch_def appendCrcSha1_def
        appendMd5Sha1_def batchAppend_def kvGet_def bytesOf_def Close_def Flush_def
        kvWriteBatch_def batchClear_def appendUniqueSha1_first)
  have est: "int64Div 12 5 = 2"
    by (simp add: int64Div_def signed_divide_int_def)
  have res: "reserveRoot depotFirstFull 2 = (depotFirstFull\<lparr>sizes := [10, 7]\<rparr>, Inr 1)"
    by (simp add: reserveRoot_def depotFirstFull_def reserveLoop.simps)
  have absent: "SHA1InDepot depotFirstFull Map.empty (EncodeToString sha1K) = Inr False"
    by (simp add: SHA1InDepot_def depotFirstFull_def PathExists_def)
  have buf2: "copyInto (replicate md5Size (0 :: byte)) md5K
                @ copyInto (replicate crc32Size (0 :: byte)) crcK = md5K @ crcK"
    by (simp add: copyInto_def md5K_def crcK_def)
  have hh: "hashesOf toolsT [1, 2, 3] = \<lparr>h_Crc = crcK, h_Md5 = md5K, h_Sha1 = sha1K\<rparr>"
    by (simp add: toolsT_def)
  have rom: "hashedRom \<lparr>h_Crc = crcK, h_Md5 = md5K, h_Sha1 = sha1K\<rparr> ''r.bin'' ''/in/r.bin'' 12
             = romT"
    using hashedRom_romT by (simp add: readerT_def hh)
  have rt: "roots depotFirstFull ! Suc 0 = ''/depot/b''"
    by (simp add: depotFirstFull_def)
  have wr: "writeBlob toolsT Map.empty p readerT (md5K @ crcK)
            = Inr ([p \<mapsto> Blob \<lparr>h_Crc = crcK, h_Md5 = md5K, h_Sha1 = []\<rparr>], 3)" for p
    by (simp add: writeBlob_def readerT_def toolsT_def md5K_def)
  have adj: "adjustSize (depotFirstFull\<lparr>sizes := [10, 7]\<rparr>) (Suc 0) 1
             = Inr (depotFirstFull\<lparr>sizes := [10, 8]\<rparr>)"
    by (simp add: adjustSize_def depotFirstFull_def)
  let ?s1 = "\<lparr>a_index = indexArtificial, a_depot = depotFirstFull, a_files = Map.empty,
              md5crcBuffer = md5K @ crcK\<rparr>"
  have store: "archiveStore tableCodec toolsT ?s1 (Inr readerT)
                 \<lparr>h_Crc = crcK, h_Md5 = md5K, h_Sha1 = sha1K\<rparr> romT 12
               = (?s1\<lparr>a_index := indexArtificial
                        \<lparr>crcsha1DB := \<lparr>kv_keySize = keySizeCrc, kv_data = [crcK \<mapsto> sha1K]\<rparr>,
                         md5sha1DB := \<lparr>kv_keySize = keySizeMd5, kv_data = [md5K \<mapsto> sha1K]\<rparr>\<rparr>,
                      a_depot := depotFirstFull\<lparr>sizes := [10, 8]\<rparr>,
                      a_files := [blobPath ''/depot/b'' sha1K
                                    \<mapsto> Blob \<lparr>h_Crc = crcK, h_Md5 = md5K, h_Sha1 = []\<rparr>]\<rparr>, Inr 3)"
    unfolding archiveStore_def
    by (simp add: ix absent est res rt wr adj blobPath_def Let_def)
  have "archive tableCodec toolsT False stateArtificial (Inr readerT) ''r.bin'' ''/in/r.bin'' 12
        = archiveStore tableCodec toolsT ?s1 (Inr readerT)
            \<lparr>h_Crc = crcK, h_Md5 = md5K, h_Sha1 = sha1K\<rparr> romT 12"
    unfolding archive_def stateArtificial_def
    by (simp add: readerT_def hh rom slice_def buf buf2)
  with store show ?thesis by simp
qed

end
